theory Spec2Isabelle
  imports Main "HOL-Library.Word"
begin

unbundle bit_operations_syntax

section \<open>Bytes and the output sink\<close>

text \<open>
  A byte is an \<open>unsigned char\<close>. The output of both the encoder and the decoder is a
  growable buffer \<open>b\<close> together with a write cursor \<open>ix\<close>, both passed by reference.
  The three \<open>dump\<close> overloads of \<open>struct smallz4\<close> write at the cursor and grow the buffer
  when it is too short; \<open>resize\<close> zero-fills, as \<open>std::string::resize\<close> does.
\<close>

type_synonym byte = "8 word"

record sink =
  buf :: "byte list"
  ix :: nat

definition resize :: "nat \<Rightarrow> byte list \<Rightarrow> byte list" where
  "resize m b = take m b @ replicate (m - length b) 0"

text \<open>\<open>dump(std::span str, b, ix)\<close>: grow to \<open>max(2 * size, ix + n)\<close>, then \<open>memcpy\<close>.\<close>

definition dump :: "byte list \<Rightarrow> sink \<Rightarrow> sink" where
  "dump str s =
     (let n = length str;
          b = (if ix s + n > length (buf s)
               then resize (max (length (buf s) * 2) (ix s + n)) (buf s) else buf s)
      in \<lparr>buf = take (ix s) b @ str @ drop (ix s + n) b, ix = ix s + n\<rparr>)"

text \<open>\<open>dump(unsigned char c, b, ix)\<close>: grow to 128 or to twice the size when the cursor
  is at the end, then \<open>b[ix] = c\<close>.\<close>

definition dump_byte :: "byte \<Rightarrow> sink \<Rightarrow> sink" where
  "dump_byte c s =
     (let b = (if ix s = length (buf s)
               then resize (if length (buf s) = 0 then 128 else length (buf s) * 2) (buf s)
               else buf s)
      in \<lparr>buf = b[ix s := c], ix = ix s + 1\<rparr>)"

text \<open>\<open>dump_type(uint32_t value, b, ix)\<close>: the four bytes of the value in memory order
  (little-endian).\<close>

definition le32 :: "nat \<Rightarrow> byte list" where
  "le32 v = [of_nat v, of_nat (v div 256), of_nat (v div 65536), of_nat (v div 16777216)]"

definition dump_type :: "nat \<Rightarrow> sink \<Rightarrow> sink" where
  "dump_type v s = dump (le32 v) s"

text \<open>The bytes written so far: \<open>b[0 .. ix)\<close>, what the caller keeps after
  \<open>b.resize(ix)\<close>.\<close>

definition written :: "sink \<Rightarrow> byte list" where
  "written s = take (ix s) (buf s)"

definition empty_sink :: sink where
  "empty_sink = \<lparr>buf = [], ix = 0\<rparr>"

definition sink_ok :: "sink \<Rightarrow> bool" where
  "sink_ok s = (ix s \<le> length (buf s))"

section \<open>The frame decompressor \<open>unlz4\<close>\<close>

text \<open>
  \<open>unlz4\<close> reads through the pointer \<open>it\<close> and never looks at \<open>end\<close>. The memory the
  pointer walks over is the list \<open>mem\<close>, \<open>it\<close> is an index into it, and a read at or
  beyond \<open>length mem\<close> leaves the modelled memory: the outcome is \<open>Undefined\<close>.
  \<open>unlz4error\<close> prints a message and calls \<open>exit(1)\<close>: the outcome is \<open>Fatal\<close>.
\<close>

datatype decode_error =
  InvalidSignature | UnsupportedVersion | CannotOpenDictionary | InvalidOffset

datatype 'a outcome = Returned 'a | Fatal decode_error | Undefined

definition HISTORY_SIZE :: nat where
  "HISTORY_SIZE = 64 * 1024"

text \<open>The decoder's variables that live across the loops: the read pointer, the ring
  \<open>history\<close> (an array of \<open>HISTORY_SIZE\<close> bytes, indexed here by a function), the next
  free position \<open>pos\<close> and the output sink.\<close>

record dstate =
  d_it :: nat
  history :: "nat \<Rightarrow> byte"
  pos :: nat
  d_out :: sink

definition u32 :: "nat \<Rightarrow> nat" where
  "u32 v = v mod 2 ^ 32"

text \<open>The \<open>do { current = *it; ++it; n += current; blockOffset++; } while (current == 255)\<close>
  loops that read a literal count or a match length; \<open>n\<close> and \<open>blockOffset\<close> are
  \<open>uint32_t\<close>.\<close>

function read_length :: "byte list \<Rightarrow> nat \<Rightarrow> nat \<Rightarrow> nat \<Rightarrow> (nat \<times> nat \<times> nat) option" where
  "read_length mem it n blockOffset =
     (if it < length mem then
        (let current = unat (mem ! it);
             n' = u32 (n + current);
             blockOffset' = u32 (blockOffset + 1)
         in if current = 255 then read_length mem (it + 1) n' blockOffset'
            else Some (it + 1, n', blockOffset'))
      else None)"
  by pat_completeness auto
termination
  by (relation "measure (\<lambda>(mem, it, n, blockOffset). length mem - it)") auto

declare read_length.simps [simp del]

text \<open>Literal copy, fast loop: \<open>while (numLiterals-- > 0) { history[pos++] = *it; ++it; }\<close>.
  A write at or beyond \<open>HISTORY_SIZE\<close> is outside the array.\<close>

fun literals_fast :: "byte list \<Rightarrow> nat \<Rightarrow> dstate \<Rightarrow> dstate option" where
  "literals_fast mem 0 st = Some st"
| "literals_fast mem (Suc n) st =
     (if d_it st < length mem \<and> pos st < HISTORY_SIZE then
        literals_fast mem n
          (st\<lparr>history := (history st)(pos st := mem ! d_it st),
              pos := pos st + 1, d_it := d_it st + 1\<rparr>)
      else None)"

text \<open>The flush of a full ring: \<open>dump({history, HISTORY_SIZE}, b, ix); pos = 0\<close>.\<close>

definition flush_if_full :: "dstate \<Rightarrow> dstate" where
  "flush_if_full st =
     (if pos st = HISTORY_SIZE
      then st\<lparr>d_out := dump (map (history st) [0..<HISTORY_SIZE]) (d_out st), pos := 0\<rparr>
      else st)"

text \<open>Literal copy, slow loop, and the raw-block loop (the same body): copy a byte,
  flush when the ring is full.\<close>

fun literals_slow :: "byte list \<Rightarrow> nat \<Rightarrow> dstate \<Rightarrow> dstate option" where
  "literals_slow mem 0 st = Some st"
| "literals_slow mem (Suc n) st =
     (if d_it st < length mem \<and> pos st < HISTORY_SIZE then
        literals_slow mem n
          (flush_if_full
            (st\<lparr>history := (history st)(pos st := mem ! d_it st),
                pos := pos st + 1, d_it := d_it st + 1\<rparr>))
      else None)"

text \<open>Match copy, overlapping and contiguous:
  \<open>while (matchLength-- > 0) history[pos++] = history[referencePos++];\<close>\<close>

fun match_bytewise :: "nat \<Rightarrow> nat \<Rightarrow> dstate \<Rightarrow> dstate option" where
  "match_bytewise 0 referencePos st = Some st"
| "match_bytewise (Suc n) referencePos st =
     (if pos st < HISTORY_SIZE \<and> referencePos < HISTORY_SIZE then
        match_bytewise n (referencePos + 1)
          (st\<lparr>history := (history st)(pos st := history st referencePos), pos := pos st + 1\<rparr>)
      else None)"

text \<open>Match copy when the read or the write wraps around the end of the ring.\<close>

fun match_wrapping :: "nat \<Rightarrow> nat \<Rightarrow> dstate \<Rightarrow> dstate option" where
  "match_wrapping 0 referencePos st = Some st"
| "match_wrapping (Suc n) referencePos st =
     (if pos st < HISTORY_SIZE \<and> referencePos < HISTORY_SIZE then
        match_wrapping n ((referencePos + 1) mod HISTORY_SIZE)
          (flush_if_full
            (st\<lparr>history := (history st)(pos st := history st referencePos), pos := pos st + 1\<rparr>))
      else None)"

text \<open>\<open>memcpy(history + pos, history + referencePos, matchLength)\<close> on ranges that do
  not overlap; both ranges must lie in the array.\<close>

definition match_memcpy :: "nat \<Rightarrow> nat \<Rightarrow> dstate \<Rightarrow> dstate option" where
  "match_memcpy matchLength referencePos st =
     (if pos st + matchLength \<le> HISTORY_SIZE \<and> referencePos + matchLength \<le> HISTORY_SIZE then
        Some (st\<lparr>history := (\<lambda>k. if pos st \<le> k \<and> k < pos st + matchLength
                                  then history st (referencePos + (k - pos st))
                                  else history st k),
                 pos := pos st + matchLength\<rparr>)
      else None)"

text \<open>The copy of one match (\<open>// copy match\<close> to the end of the sequence loop's body).
  The sums \<open>pos + matchLength\<close> and \<open>referencePos + matchLength\<close> are \<open>uint32_t\<close>.\<close>

definition copy_match :: "nat \<Rightarrow> nat \<Rightarrow> dstate \<Rightarrow> dstate option" where
  "copy_match delta matchLength st =
     (let referencePos = (if pos st \<ge> delta then pos st - delta
                          else u32 (HISTORY_SIZE + pos st - delta))
      in if u32 (pos st + matchLength) < HISTORY_SIZE
            \<and> u32 (referencePos + matchLength) < HISTORY_SIZE then
           (if pos st \<ge> u32 (referencePos + matchLength)
               \<or> referencePos \<ge> u32 (pos st + matchLength)
            then match_memcpy matchLength referencePos st
            else match_bytewise matchLength referencePos st)
         else match_wrapping matchLength referencePos st)"

text \<open>The literals of one sequence: token, literal count, literal bytes. The result is
  the token, the state and the new \<open>blockOffset\<close>.\<close>

definition read_literals :: "byte list \<Rightarrow> dstate \<Rightarrow> nat \<Rightarrow> (nat \<times> dstate \<times> nat) option" where
  "read_literals mem st blockOffset =
     (if d_it st < length mem then
        (let token = unat (mem ! d_it st);
             it1 = d_it st + 1;
             off1 = u32 (blockOffset + 1)
         in case (if token div 16 = 15 then read_length mem it1 15 off1
                  else Some (it1, token div 16, off1)) of
              None \<Rightarrow> None
            | Some (it2, numLiterals, off2) \<Rightarrow>
                (case (if u32 (pos st + numLiterals) < HISTORY_SIZE
                       then literals_fast mem numLiterals (st\<lparr>d_it := it2\<rparr>)
                       else literals_slow mem numLiterals (st\<lparr>d_it := it2\<rparr>)) of
                   None \<Rightarrow> None
                 | Some st' \<Rightarrow> Some (token, st', u32 (off2 + numLiterals))))
      else None)"

text \<open>The match of one sequence, after the literals: offset, match length, copy.\<close>

definition read_match :: "byte list \<Rightarrow> nat \<Rightarrow> dstate \<Rightarrow> nat \<Rightarrow> (dstate \<times> nat) outcome" where
  "read_match mem token st blockOffset =
     (if d_it st + 1 < length mem then
        (let delta = unat (mem ! d_it st) + 256 * unat (mem ! (d_it st + 1));
             it1 = d_it st + 2
         in if delta = 0 then Fatal InvalidOffset
            else
              (let off1 = u32 (blockOffset + 2) in
               case (if token mod 16 = 15 then read_length mem it1 19 off1
                     else Some (it1, 4 + token mod 16, off1)) of
                 None \<Rightarrow> Undefined
               | Some (it2, matchLength, off2) \<Rightarrow>
                   (case copy_match delta matchLength (st\<lparr>d_it := it2\<rparr>) of
                      None \<Rightarrow> Undefined
                    | Some st' \<Rightarrow> Returned (st', off2))))
      else Undefined)"


subsection \<open>The read pointer only moves forward\<close>

lemma read_length_it:
  "read_length mem it n off = Some (it', n', off') \<Longrightarrow> it < it' \<and> it < length mem"
proof (induction mem it n off rule: read_length.induct)
  case (1 mem it n blockOffset)
  note eq = read_length.simps [of mem it n blockOffset]
  show ?case
  proof (cases "it < length mem")
    case False
    with "1.prems" eq show ?thesis by simp
  next
    case True
    show ?thesis
    proof (cases "unat (mem ! it) = 255")
      case True
      with \<open>it < length mem\<close> "1.prems" eq
      have "read_length mem (it + 1) (u32 (n + unat (mem ! it))) (u32 (blockOffset + 1))
              = Some (it', n', off')"
        by (simp add: Let_def)
      from "1.IH" [OF \<open>it < length mem\<close> refl refl refl True this] \<open>it < length mem\<close>
      show ?thesis by simp
    next
      case False
      with \<open>it < length mem\<close> "1.prems" eq show ?thesis by (auto simp: Let_def)
    qed
  qed
qed

lemma flush_if_full_it [simp]: "d_it (flush_if_full st) = d_it st"
  by (simp add: flush_if_full_def)

lemma literals_fast_it: "literals_fast mem n st = Some st' \<Longrightarrow> d_it st' = d_it st + n"
  by (induction n arbitrary: st) (auto split: if_splits)

lemma literals_slow_it: "literals_slow mem n st = Some st' \<Longrightarrow> d_it st' = d_it st + n"
  by (induction n arbitrary: st) (auto split: if_splits)

lemma match_bytewise_it: "match_bytewise n r st = Some st' \<Longrightarrow> d_it st' = d_it st"
  by (induction n arbitrary: r st) (auto split: if_splits)

lemma match_wrapping_it: "match_wrapping n r st = Some st' \<Longrightarrow> d_it st' = d_it st"
  by (induction n arbitrary: r st) (auto split: if_splits)

lemma match_memcpy_it: "match_memcpy n r st = Some st' \<Longrightarrow> d_it st' = d_it st"
  by (auto simp: match_memcpy_def split: if_splits)

lemma copy_match_it: "copy_match delta n st = Some st' \<Longrightarrow> d_it st' = d_it st"
  by (auto simp: copy_match_def Let_def
      dest: match_memcpy_it match_bytewise_it match_wrapping_it split: if_splits)

lemma read_literals_it:
  assumes "read_literals mem st off = Some (token, st', off')"
  shows "d_it st < d_it st' \<and> d_it st < length mem"
  using assms
  by (auto simp: read_literals_def Let_def split: if_splits option.splits
      dest!: read_length_it literals_fast_it literals_slow_it)

lemma read_match_it:
  assumes "read_match mem token st off = Returned (st', off')"
  shows "d_it st < d_it st'"
  using assms
  by (auto simp: read_match_def Let_def split: if_splits option.splits
      dest!: read_length_it copy_match_it)

subsection \<open>Blocks and the frame\<close>

text \<open>The sequence loop of a compressed block:
  \<open>while (blockOffset < blockSize) { literals; if (blockOffset == blockSize) break; match }\<close>.\<close>

function sequences :: "byte list \<Rightarrow> nat \<Rightarrow> dstate \<Rightarrow> nat \<Rightarrow> dstate outcome" where
  "sequences mem blockSize st blockOffset =
     (if blockOffset < blockSize then
        (case read_literals mem st blockOffset of
           None \<Rightarrow> Undefined
         | Some (token, st1, off1) \<Rightarrow>
             if off1 = blockSize then Returned st1
             else (case read_match mem token st1 off1 of
                     Returned (st2, off2) \<Rightarrow> sequences mem blockSize st2 off2
                   | Fatal e \<Rightarrow> Fatal e
                   | Undefined \<Rightarrow> Undefined))
      else Returned st)"
  by pat_completeness auto
termination
proof (relation "measure (\<lambda>(mem, blockSize, st, blockOffset). length mem - d_it st)")
  show "wf (measure (\<lambda>(mem, blockSize, st, blockOffset). length mem - d_it st))"
    by simp
next
  fix mem blockSize st blockOffset x2 token y st1 off1 x1 st2 off2
  assume "read_literals mem st blockOffset = Some x2" "(token, y) = x2" "(st1, off1) = y"
    and "read_match mem token st1 off1 = Returned x1" "(st2, off2) = x1"
  then have a: "read_literals mem st blockOffset = Some (token, st1, off1)"
    and b: "read_match mem token st1 off1 = Returned (st2, off2)"
    by simp_all
  from read_literals_it [OF a] read_match_it [OF b]
  show "((mem, blockSize, st2, off2), (mem, blockSize, st, blockOffset))
          \<in> measure (\<lambda>(mem, blockSize, st, blockOffset). length mem - d_it st)"
    by auto
qed

declare sequences.simps [simp del]

lemma sequences_it: "sequences mem blockSize st off = Returned st' \<Longrightarrow> d_it st \<le> d_it st'"
proof (induction mem blockSize st off rule: sequences.induct)
  case (1 mem blockSize st blockOffset)
  note eq = sequences.simps [of mem blockSize st blockOffset]
  show ?case
  proof (cases "blockOffset < blockSize")
    case False
    with "1.prems" eq show ?thesis by simp
  next
    case True
    from True "1.prems" eq obtain token st1 off1 where
      a: "read_literals mem st blockOffset = Some (token, st1, off1)"
      by (auto split: option.splits)
    show ?thesis
    proof (cases "off1 = blockSize")
      case True
      with \<open>blockOffset < blockSize\<close> a "1.prems" eq read_literals_it [OF a]
      show ?thesis by simp
    next
      case False
      with \<open>blockOffset < blockSize\<close> a "1.prems" eq obtain st2 off2 where
        b: "read_match mem token st1 off1 = Returned (st2, off2)"
        and c: "sequences mem blockSize st2 off2 = Returned st'"
        by (auto split: outcome.splits)
      from "1.IH" [OF \<open>blockOffset < blockSize\<close> a refl refl False b refl c]
        read_literals_it [OF a] read_match_it [OF b]
      show ?thesis by simp
    qed
  qed
qed

text \<open>One block after its size prefix: compressed (the sequence loop, \<open>blockOffset = 0\<close>)
  or raw (\<open>while (blockSize-- > 0)\<close>, the byte copy with flush).\<close>

definition decode_block :: "byte list \<Rightarrow> bool \<Rightarrow> nat \<Rightarrow> dstate \<Rightarrow> dstate outcome" where
  "decode_block mem isCompressed blockSize st =
     (if isCompressed then sequences mem blockSize st 0
      else (case literals_slow mem blockSize st of
              None \<Rightarrow> Undefined
            | Some st' \<Rightarrow> Returned st'))"

lemma decode_block_it:
  "decode_block mem c blockSize st = Returned st' \<Longrightarrow> d_it st \<le> d_it st'"
  by (auto simp: decode_block_def dest: sequences_it literals_slow_it
      split: if_splits option.splits)

text \<open>The 4-byte little-endian word at the read pointer.\<close>

definition read32 :: "byte list \<Rightarrow> nat \<Rightarrow> nat" where
  "read32 mem it = unat (mem ! it) + 256 * unat (mem ! (it + 1))
                   + 65536 * unat (mem ! (it + 2)) + 16777216 * unat (mem ! (it + 3))"

text \<open>The block loop \<open>while (true)\<close>: size prefix, \<open>isCompressed\<close> from bit 31, the low
  31 bits are the size, \<open>if (blockSize == 0) break\<close>, the block, the optional block
  checksum.\<close>

function blocks :: "byte list \<Rightarrow> bool \<Rightarrow> dstate \<Rightarrow> dstate outcome" where
  "blocks mem hasBlockChecksum st =
     (if d_it st + 3 < length mem then
        (let word = read32 mem (d_it st);
             isCompressed = (word div 2 ^ 31 = 0);
             blockSize = word mod 2 ^ 31;
             st0 = st\<lparr>d_it := d_it st + 4\<rparr>
         in if blockSize = 0 then Returned st0
            else (case decode_block mem isCompressed blockSize st0 of
                    Returned st1 \<Rightarrow>
                      blocks mem hasBlockChecksum
                        (if hasBlockChecksum then st1\<lparr>d_it := d_it st1 + 4\<rparr> else st1)
                  | Fatal e \<Rightarrow> Fatal e
                  | Undefined \<Rightarrow> Undefined))
      else Undefined)"
  by pat_completeness auto
termination
proof (relation "measure (\<lambda>(mem, hasBlockChecksum, st). length mem - d_it st)")
  show "wf (measure (\<lambda>(mem, hasBlockChecksum, st). length mem - d_it st))"
    by simp
next
  fix mem hasBlockChecksum st word isCompressed blockSize st0 st1
  assume lt: "d_it st + 3 < length mem"
    and st0: "st0 = st\<lparr>d_it := d_it st + 4\<rparr>"
    and dec: "decode_block mem isCompressed blockSize st0 = Returned st1"
  from decode_block_it [OF dec] st0 have "d_it st + 4 \<le> d_it st1" by simp
  with lt
  show "((mem, hasBlockChecksum, if hasBlockChecksum then st1\<lparr>d_it := d_it st1 + 4\<rparr> else st1),
         (mem, hasBlockChecksum, st)) \<in> measure (\<lambda>(mem, hasBlockChecksum, st). length mem - d_it st)"
    by auto
qed

declare blocks.simps [simp del]

text \<open>
  The dictionary argument is a file name or \<open>nullptr\<close>. What the file system answers is
  part of the input: \<open>None\<close> is \<open>nullptr\<close>, \<open>Some Unopenable\<close> a name that \<open>fopen\<close>
  cannot open, \<open>Some (Content c)\<close> a file with the bytes \<open>c\<close>. The last 64 KiB of the
  file go to the end of \<open>history\<close>.
\<close>

datatype dict_file = Unopenable | Content "byte list"

definition load_dictionary :: "dict_file option \<Rightarrow> (nat \<Rightarrow> byte) \<Rightarrow> (nat \<Rightarrow> byte) option" where
  "load_dictionary dictionary h =
     (case dictionary of
        None \<Rightarrow> Some h
      | Some Unopenable \<Rightarrow> None
      | Some (Content c) \<Rightarrow>
          (let dictSize = length c;
               relevant = (if dictSize < 65536 then 0 else dictSize - 65536);
               dictSize' = (if dictSize > 65536 then 65536 else dictSize)
           in Some (\<lambda>k. if HISTORY_SIZE - dictSize' \<le> k \<and> k < HISTORY_SIZE
                         then c ! (relevant + (k - (HISTORY_SIZE - dictSize')))
                         else h k)))"

text \<open>
  \<open>unlz4(it, end, b, ix, dictionary)\<close>. The array \<open>history\<close> is an uninitialised local:
  its first content \<open>h0\<close> is a parameter. The result is the final read pointer (\<open>it\<close> is
  passed by reference) and the sink.
\<close>

text \<open>After the block loop: the optional content checksum is skipped and
  \<open>history[0 .. pos)\<close> is written.\<close>

definition finish :: "bool \<Rightarrow> dstate outcome \<Rightarrow> (nat \<times> sink) outcome" where
  "finish hasContentChecksum r =
     (case r of
        Returned st \<Rightarrow>
          Returned (d_it st + (if hasContentChecksum then 4 else 0),
                    dump (map (history st) [0..<pos st]) (d_out st))
      | Fatal e \<Rightarrow> Fatal e
      | Undefined \<Rightarrow> Undefined)"

definition unlz4 ::
  "byte list \<Rightarrow> nat \<Rightarrow> nat \<Rightarrow> sink \<Rightarrow> dict_file option \<Rightarrow> (nat \<Rightarrow> byte) \<Rightarrow> (nat \<times> sink) outcome" where
  "unlz4 mem it end b dictionary h0 =
     (if it + 3 < length mem then
        (if read32 mem it \<noteq> 0x184D2204 then Fatal InvalidSignature
         else if it + 4 < length mem then
           (let flags = unat (mem ! (it + 4));
                hasBlockChecksum = (flags div 16 mod 2 = 1);
                hasContentSize = (flags div 8 mod 2 = 1);
                hasContentChecksum = (flags div 4 mod 2 = 1);
                hasDictionaryID = (flags mod 2 = 1);
                version = flags div 64
            in if version \<noteq> 1 then Fatal UnsupportedVersion
               else
                 (let numIgnore = 1 + (if hasContentSize then 8 else 0)
                                    + (if hasDictionaryID then 4 else 0) + 1
                  in case load_dictionary dictionary h0 of
                       None \<Rightarrow> Fatal CannotOpenDictionary
                     | Some h \<Rightarrow>
                         finish hasContentChecksum
                           (blocks mem hasBlockChecksum
                              \<lparr>d_it = it + 5 + numIgnore, history = h, pos = 0, d_out = b\<rparr>)))
         else Undefined)
      else Undefined)"

section \<open>The compressor \<open>smallz4\<close>\<close>

subsection \<open>Constants\<close>

abbreviation (input) MinMatch :: nat where "MinMatch \<equiv> 4"
abbreviation (input) JustLiteral :: nat where "JustLiteral \<equiv> 1"
abbreviation (input) BlockEndNoMatch :: nat where "BlockEndNoMatch \<equiv> 12"
abbreviation (input) BlockEndLiterals :: nat where "BlockEndLiterals \<equiv> 5"
abbreviation (input) MaxDistance :: nat where "MaxDistance \<equiv> 65535"
abbreviation (input) EndOfChain :: nat where "EndOfChain \<equiv> 0"
abbreviation (input) MaxSameLetter :: nat where "MaxSameLetter \<equiv> 65299"
abbreviation (input) MaxBlockSize :: nat where "MaxBlockSize \<equiv> 4194304"
abbreviation (input) MaxLengthCode :: nat where "MaxLengthCode \<equiv> 255"
abbreviation (input) ShortChainsGreedy :: nat where "ShortChainsGreedy \<equiv> 3"
abbreviation (input) ShortChainsLazy :: nat where "ShortChainsLazy \<equiv> 6"

text \<open>
  Addresses. The whole input \<open>[it, end)\<close> is the list \<open>inp\<close>, and a position is an
  absolute offset into it (the source's \<open>lastBlock\<close>, \<open>nextBlock\<close>, \<open>lastHashMatch\<close>,
  \<open>pos\<close>). The span \<open>data\<close> always starts \<open>dataZero\<close> bytes into the input (it is set to
  \<open>{it, incoming}\<close> with \<open>dataZero = 0\<close> and later only cut by \<open>subspan(remove)\<close> with
  \<open>dataZero += remove\<close>), and \<open>std::span::operator[]\<close> checks nothing, so
  \<open>data[p - dataZero]\<close> and \<open>data.data() + p - dataZero\<close> are the byte of the input at
  offset \<open>p\<close>. \<open>memcpy\<close> of four bytes into a \<open>uint32_t\<close> reads them little-endian
  (\<open>read32\<close>).
\<close>

text \<open>\<open>getHash32\<close>: \<open>((fourBytes * 48271) >> 12) & (HashSize - 1)\<close> on \<open>uint32_t\<close>.\<close>

definition getHash32 :: "nat \<Rightarrow> nat" where
  "getHash32 fourBytes = u32 (fourBytes * 48271) div 2 ^ 12 mod 2 ^ 20"

text \<open>\<open>match4(a, b)\<close>: the four bytes at the two addresses are equal.\<close>

definition match4 :: "byte list \<Rightarrow> nat \<Rightarrow> nat \<Rightarrow> bool" where
  "match4 inp a b = (read32 inp a = read32 inp b)"

text \<open>Subtraction of \<open>uint64_t\<close>.\<close>

definition sub64 :: "nat \<Rightarrow> nat \<Rightarrow> nat" where
  "sub64 a b = nat ((int a - int b) mod 2 ^ 64)"

subsection \<open>\<open>findLongestMatch\<close>\<close>

text \<open>Phase 1, \<open>while (phase1 > current && match4(phase1, phase1 - totalDistance))
  phase1 -= CheckAtOnce\<close>. \<open>phase1\<close> may end below \<open>current\<close>: it is an integer.\<close>

function phase1_loop :: "byte list \<Rightarrow> nat \<Rightarrow> nat \<Rightarrow> int \<Rightarrow> int" where
  "phase1_loop inp current totalDistance phase1 =
     (if phase1 > int current \<and> match4 inp (nat phase1) (nat phase1 - totalDistance)
      then phase1_loop inp current totalDistance (phase1 - 4)
      else phase1)"
  by pat_completeness auto
termination
  by (relation "measure (\<lambda>(inp, current, totalDistance, phase1). nat (phase1 - int current))") auto

declare phase1_loop.simps [simp del]

text \<open>Phase 2, fast loop: \<open>while (phase2 + CheckAtOnce <= stop && match4(...)) phase2 += 4\<close>.\<close>

function phase2_fast :: "byte list \<Rightarrow> nat \<Rightarrow> nat \<Rightarrow> nat \<Rightarrow> nat" where
  "phase2_fast inp stop totalDistance phase2 =
     (if phase2 + 4 \<le> stop \<and> match4 inp phase2 (phase2 - totalDistance)
      then phase2_fast inp stop totalDistance (phase2 + 4)
      else phase2)"
  by pat_completeness auto
termination
  by (relation "measure (\<lambda>(inp, stop, totalDistance, phase2). stop - phase2)") auto

declare phase2_fast.simps [simp del]

text \<open>Phase 2, slow loop: \<open>while (phase2 < stop && *phase2 == *(phase2 - totalDistance))
  ++phase2\<close>.\<close>

function phase2_slow :: "byte list \<Rightarrow> nat \<Rightarrow> nat \<Rightarrow> nat \<Rightarrow> nat" where
  "phase2_slow inp stop totalDistance phase2 =
     (if phase2 < stop \<and> inp ! phase2 = inp ! (phase2 - totalDistance)
      then phase2_slow inp stop totalDistance (phase2 + 1)
      else phase2)"
  by pat_completeness auto
termination
  by (relation "measure (\<lambda>(inp, stop, totalDistance, phase2). stop - phase2)") auto

declare phase2_slow.simps [simp del]

text \<open>
  The loop over the chain, \<open>while (distance != EndOfChain)\<close>. \<open>chain\<close> is the ring
  \<open>previousExact\<close>, indexed by \<open>(pos - totalDistance) & MaxDistance\<close>; \<open>stepsLeft\<close> is a
  \<open>uint16_t\<close>; the result is \<open>(result_length, result_distance)\<close>, both passed by
  reference in the source.
\<close>

function chain_loop ::
  "byte list \<Rightarrow> (nat \<Rightarrow> nat) \<Rightarrow> nat \<Rightarrow> nat \<Rightarrow> nat \<Rightarrow> nat \<Rightarrow> nat \<Rightarrow> nat \<Rightarrow> nat \<Rightarrow> nat \<times> nat" where
  "chain_loop inp chain cur stop distance totalDistance stepsLeft result_length result_distance =
     (if distance \<noteq> EndOfChain then
        (let totalDistance' = totalDistance + distance in
         if totalDistance' > MaxDistance then (result_length, result_distance)
         else
           (let distance' = chain (nat ((int cur - int totalDistance') mod 65536));
                atLeast = cur + result_length + 1
            in if atLeast > stop then (result_length, result_distance)
               else if phase1_loop inp cur totalDistance' (int atLeast - 4) > int cur
               then chain_loop inp chain cur stop distance' totalDistance' stepsLeft
                      result_length result_distance
               else
                 (let phase2 = phase2_slow inp stop totalDistance'
                                 (phase2_fast inp stop totalDistance' atLeast);
                      stepsLeft' = (stepsLeft + 65535) mod 65536
                  in if stepsLeft' = 0 then (phase2 - cur, totalDistance')
                     else chain_loop inp chain cur stop distance' totalDistance' stepsLeft'
                            (phase2 - cur) totalDistance')))
      else (result_length, result_distance))"
  by pat_completeness auto
termination
  by (relation "measure (\<lambda>(inp, chain, cur, stop, distance, totalDistance, rest).
                  65536 - totalDistance)") auto

declare chain_loop.simps [simp del]

text \<open>\<open>findLongestMatch(data, pos, begin, end, chain, result_length, result_distance)\<close>;
  \<open>result_distance\<close> keeps the value it had when no match is found.\<close>

definition findLongestMatch ::
  "byte list \<Rightarrow> nat \<Rightarrow> nat \<Rightarrow> nat \<Rightarrow> nat \<Rightarrow> (nat \<Rightarrow> nat) \<Rightarrow> nat \<Rightarrow> nat \<times> nat" where
  "findLongestMatch inp maxChainLength cur begin end chain result_distance =
     chain_loop inp chain cur end (chain (cur mod 65536)) 0 maxChainLength
       JustLiteral result_distance"

subsection \<open>\<open>selectBestMatches\<close>\<close>

record matches =
  lengths :: "nat list"
  distances :: "nat list"

text \<open>The bytes after the first 15 of a count: \<open>while (n >= MaxLengthCode) { dump(255);
  n -= 255; } dump((unsigned char) n)\<close>.\<close>

function length_code :: "nat \<Rightarrow> byte list" where
  "length_code n = (if n \<ge> MaxLengthCode then 255 # length_code (n - MaxLengthCode)
                    else [of_nat n])"
  by pat_completeness auto
termination
  by (relation "measure (\<lambda>n. n)") auto

declare length_code.simps [simp del]

definition dump_bytes :: "byte list \<Rightarrow> sink \<Rightarrow> sink" where
  "dump_bytes bs out = fold dump_byte bs out"

text \<open>
  The second half of the loop body (from \<open>// store match length\<close>): one sequence is
  written. \<open>data\<close> is the list from the block's first byte on; \<open>matchLength\<close> is an
  \<open>int\<close>. The result says whether the loop ends (\<open>break\<close> after the last token).
\<close>

definition emit_sequence ::
  "byte list \<Rightarrow> nat \<Rightarrow> nat \<Rightarrow> nat \<Rightarrow> nat \<Rightarrow> bool \<Rightarrow> sink \<Rightarrow> bool \<times> sink" where
  "emit_sequence data literalsFrom numLiterals len distance lastToken out =
     (let matchLength = (if lastToken then 0 else int len - int MinMatch);
          token = (if matchLength < 15 then of_int matchLength else 15 :: byte);
          out1 = (if numLiterals < 15
                  then dump_byte (token OR push_bit 4 (of_nat numLiterals)) out
                  else dump_bytes (length_code (numLiterals - 15))
                         (dump_byte (token OR 0xF0) out));
          out2 = (if numLiterals > 0
                  then dump (take numLiterals (drop literalsFrom data)) out1 else out1)
      in if numLiterals > 0 \<and> lastToken then (True, out2)
         else
           (let out3 = dump_byte (of_nat (distance div 256))
                         (dump_byte (of_nat (distance mod 256)) out2)
            in (False,
                if matchLength \<ge> 15
                then dump_bytes (length_code (nat (matchLength - 15))) out3
                else out3)))"

text \<open>The loop \<open>for (size_t offset = 0; offset < n_matches;)\<close>. A literal only counts
  (\<open>continue\<close>) unless it is the last position of the block.\<close>

function select_loop :: "matches \<Rightarrow> byte list \<Rightarrow> nat \<Rightarrow> nat \<Rightarrow> nat \<Rightarrow> sink \<Rightarrow> sink" where
  "select_loop m data offset literalsFrom numLiterals out =
     (if offset < length (lengths m) then
        (let len = lengths m ! offset;
             distance = distances m ! offset
         in if len \<le> JustLiteral then
              (let literalsFrom' = (if numLiterals = 0 then offset else literalsFrom);
                   numLiterals' = numLiterals + 1
               in if offset + 1 < length (lengths m)
                  then select_loop m data (offset + 1) literalsFrom' numLiterals' out
                  else
                    (case emit_sequence data literalsFrom' numLiterals' len distance True out of
                       (stop, out') \<Rightarrow>
                         if stop then out'
                         else select_loop m data (offset + 1) literalsFrom' 0 out'))
            else
              (case emit_sequence data literalsFrom numLiterals len distance False out of
                 (stop, out') \<Rightarrow>
                   if stop then out'
                   else select_loop m data (offset + len) literalsFrom 0 out'))
      else out)"
  by pat_completeness auto
termination
  by (relation "measure (\<lambda>(m, data, offset, rest). length (lengths m) - offset)") auto

declare select_loop.simps [simp del]

text \<open>\<open>selectBestMatches(matches, data, result)\<close>: \<open>result.resize(n_matches)\<close>, the loop,
  \<open>result.resize(ix)\<close>.\<close>

definition selectBestMatches :: "matches \<Rightarrow> byte list \<Rightarrow> byte list" where
  "selectBestMatches m data =
     written (select_loop m data 0 0 0 \<lparr>buf = replicate (length (lengths m)) 0, ix = 0\<rparr>)"


subsection \<open>\<open>estimateCosts\<close>\<close>

text \<open>The core optimisation loop \<open>for (Length length = MinMatch; length <= match_length;
  ++length)\<close>; the result is \<open>(minCost, bestLength)\<close>.\<close>

function try_lengths ::
  "nat list \<Rightarrow> nat \<Rightarrow> nat \<Rightarrow> nat \<Rightarrow> nat \<Rightarrow> nat \<Rightarrow> nat \<Rightarrow> nat \<Rightarrow> nat \<times> nat" where
  "try_lengths cost i match_length len extraCost nextCostIncrease minCost bestLength =
     (if len \<le> match_length then
        (let currentCost = cost ! (i + len) + extraCost;
             better = (currentCost \<le> minCost);
             increase = (len = nextCostIncrease)
         in try_lengths cost i match_length (len + 1)
              (if increase then extraCost + 1 else extraCost)
              (if increase then nextCostIncrease + MaxLengthCode else nextCostIncrease)
              (if better then currentCost else minCost)
              (if better then len else bestLength))
      else (minCost, bestLength))"
  by pat_completeness auto
termination
  by (relation "measure (\<lambda>(cost, i, match_length, len, rest). match_length + 1 - len)") auto

declare try_lengths.simps [simp del]

text \<open>
  The backward loop \<open>for (int64_t i = int64_t(blockEnd) - (1 + BlockEndLiterals); i >= 0;
  --i)\<close>; the counter \<open>k\<close> is \<open>i + 1\<close>.
\<close>

function cost_loop :: "nat \<Rightarrow> matches \<Rightarrow> nat list \<Rightarrow> nat \<Rightarrow> matches" where
  "cost_loop k m cost numLiterals =
     (if k > 0 then
        (let i = k - 1;
             numLiterals1 = numLiterals + 1;
             literalCost = cost ! (i + 1) + JustLiteral
               + (if numLiterals1 \<ge> 15
                     \<and> (numLiterals1 = 15
                        \<or> (numLiterals1 \<ge> 15 + MaxLengthCode
                           \<and> (numLiterals1 - 15) mod MaxLengthCode = 0))
                  then 1 else 0);
             match_length = lengths m ! i;
             match_distance = distances m ! i;
             best = (if match_length \<ge> MaxSameLetter \<and> match_distance = 1
                     then (cost ! (i + match_length) + 1 + 2 + 1 + (match_length - 19) div 255,
                           match_length)
                     else try_lengths cost i match_length MinMatch (1 + 2) 18
                            literalCost JustLiteral)
         in cost_loop i (m\<lparr>lengths := (lengths m)[i := snd best]\<rparr>) (cost[i := fst best])
              (if snd best \<noteq> JustLiteral then 0 else numLiterals1))
      else m)"
  by pat_completeness auto
termination
  by (relation "measure (\<lambda>(k, m, cost, numLiterals). k)") auto

declare cost_loop.simps [simp del]

definition estimateCosts :: "matches \<Rightarrow> matches" where
  "estimateCosts m =
     (let blockEnd = length (lengths m)
      in cost_loop (blockEnd - BlockEndLiterals) m (replicate blockEnd 0) BlockEndLiterals)"

subsection \<open>\<open>compress\<close>: the match finder of one block\<close>

text \<open>
  The hash table \<open>lastHash\<close> (\<open>None\<close> is \<open>NoLastHash\<close>), the two rings \<open>previousHash\<close> and
  \<open>previousExact\<close> (indexed by a position masked with \<open>MaxDistance\<close>), the block's
  \<open>matches\<close> and the two variables of the greedy and lazy modes.
\<close>

record bstate =
  lastHash :: "nat \<Rightarrow> nat option"
  previousHash :: "nat \<Rightarrow> nat"
  previousExact :: "nat \<Rightarrow> nat"
  found :: matches
  skipMatches :: nat
  lazyEvaluation :: bool

text \<open>The walk along the hash chain (\<open>// check the hash chain\<close>, \<open>while (true)\<close>); the
  result is \<open>(currentFour, distance)\<close>.\<close>

function hash_walk ::
  "byte list \<Rightarrow> nat \<Rightarrow> (nat \<Rightarrow> nat) \<Rightarrow> nat \<Rightarrow> nat \<Rightarrow> nat \<Rightarrow> nat \<Rightarrow> nat \<times> nat" where
  "hash_walk inp dataZero prevHash four hash lastHashMatch distance =
     (let currentFour = read32 inp lastHashMatch in
      if currentFour = four then (currentFour, distance)
      else if hash \<noteq> getHash32 currentFour then (currentFour, distance)
      else
        (let next = prevHash (lastHashMatch mod 65536) in
         if next = EndOfChain then (currentFour, distance)
         else if distance + next > MaxDistance then (currentFour, distance + next)
         else if sub64 lastHashMatch next < dataZero then (currentFour, distance + next)
         else hash_walk inp dataZero prevHash four hash (sub64 lastHashMatch next)
                (distance + next)))"
  by pat_completeness auto
termination
  by (relation "measure (\<lambda>(inp, dataZero, prevHash, four, hash, lastHashMatch, distance).
                  65536 - distance)") auto

declare hash_walk.simps [simp del]

text \<open>
  The index update of position \<open>i\<close> of the block that starts at \<open>lastBlock\<close> (from
  \<open>uint32_t four\<close> to \<open>previousExact[prevIndex] = (Distance)distance\<close>). The result is
  \<open>True\<close> when an exact predecessor was stored, \<open>False\<close> when the body left by one of
  its \<open>continue\<close>s.
\<close>

definition update_chains :: "byte list \<Rightarrow> nat \<Rightarrow> nat \<Rightarrow> int \<Rightarrow> bstate \<Rightarrow> bool \<times> bstate" where
  "update_chains inp dataZero lastBlock i st =
     (let cur = nat (int lastBlock + i);
          four = read32 inp cur;
          hash = getHash32 four;
          lastHashMatch = lastHash st hash;
          st1 = st\<lparr>lastHash := (lastHash st)(hash := Some cur)\<rparr>;
          prevIndex = nat ((i + int MaxDistance + 1) mod 65536)
      in case lastHashMatch of
           None \<Rightarrow>
             (False, st1\<lparr>previousHash := (previousHash st1)(prevIndex := EndOfChain),
                         previousExact := (previousExact st1)(prevIndex := EndOfChain)\<rparr>)
         | Some lhm \<Rightarrow>
             (let distance = sub64 cur lhm in
              if distance > MaxDistance then
                (False, st1\<lparr>previousHash := (previousHash st1)(prevIndex := EndOfChain),
                            previousExact := (previousExact st1)(prevIndex := EndOfChain)\<rparr>)
              else
                (let st2 = st1\<lparr>previousHash := (previousHash st1)(prevIndex := distance)\<rparr>;
                     walk = hash_walk inp dataZero (previousHash st2) four hash lhm distance
                 in if four \<noteq> fst walk
                    then (False, st2\<lparr>previousExact := (previousExact st2)(prevIndex := EndOfChain)\<rparr>)
                    else (True, st2\<lparr>previousExact := (previousExact st2)(prevIndex := snd walk)\<rparr>))))"

text \<open>The rest of the body, for \<open>i >= 0\<close>: the skip of the greedy and lazy modes, the
  longest match, and the skip it asks for.\<close>

definition find_at :: "byte list \<Rightarrow> nat \<Rightarrow> nat \<Rightarrow> nat \<Rightarrow> nat \<Rightarrow> nat \<Rightarrow> bstate \<Rightarrow> bstate" where
  "find_at inp maxChainLength dataZero lastBlock nextBlock i st =
     (if skipMatches st > 0 \<and> \<not> lazyEvaluation st
      then st\<lparr>skipMatches := skipMatches st - 1\<rparr>
      else
        (let st1 = (if skipMatches st > 0
                    then st\<lparr>skipMatches := skipMatches st - 1, lazyEvaluation := False\<rparr>
                    else st);
             r = findLongestMatch inp maxChainLength (i + lastBlock) dataZero
                   (nextBlock - BlockEndLiterals) (previousExact st1)
                   (distances (found st1) ! i);
             st2 = st1\<lparr>found := \<lparr>lengths = (lengths (found st1))[i := fst r],
                                 distances = (distances (found st1))[i := snd r]\<rparr>\<rparr>;
             isGreedy = (maxChainLength \<le> ShortChainsGreedy);
             isLazy = (\<not> isGreedy \<and> maxChainLength \<le> ShortChainsLazy)
         in if (isLazy \<or> isGreedy) \<and> fst r \<noteq> JustLiteral
            then st2\<lparr>lazyEvaluation := (skipMatches st2 = 0), skipMatches := fst r\<rparr>
            else st2))"

text \<open>The test \<open>// detect self-matching\<close> at the head of the body.\<close>

definition self_matching :: "byte list \<Rightarrow> nat \<Rightarrow> int \<Rightarrow> bstate \<Rightarrow> bool" where
  "self_matching inp lastBlock i st =
     (i > 0 \<and> inp ! nat (int lastBlock + i) = inp ! nat (int lastBlock + i - 1)
      \<and> distances (found st) ! nat (i - 1) = 1
      \<and> lengths (found st) ! nat (i - 1) > MaxSameLetter)"

text \<open>The body of the loop over the positions of a block.\<close>

definition match_position ::
  "byte list \<Rightarrow> nat \<Rightarrow> nat \<Rightarrow> nat \<Rightarrow> nat \<Rightarrow> int \<Rightarrow> bstate \<Rightarrow> bstate" where
  "match_position inp maxChainLength dataZero lastBlock nextBlock i st =
     (if self_matching inp lastBlock i st then
        st\<lparr>found := \<lparr>lengths = (lengths (found st))[nat i := lengths (found st) ! nat (i - 1) - 1],
                      distances = (distances (found st))[nat i := 1]\<rparr>\<rparr>
      else
        (case update_chains inp dataZero lastBlock i st of
           (False, st') \<Rightarrow> st'
         | (True, st') \<Rightarrow>
             if i < 0 then st'
             else find_at inp maxChainLength dataZero lastBlock nextBlock (nat i) st'))"

text \<open>\<open>for (i = lookback; i + BlockEndNoMatch <= int64_t(blockSize) && !uncompressed; ++i)\<close>;
  the result is the final \<open>i\<close> and the state.\<close>

function match_loop ::
  "byte list \<Rightarrow> nat \<Rightarrow> nat \<Rightarrow> nat \<Rightarrow> nat \<Rightarrow> int \<Rightarrow> bstate \<Rightarrow> int \<times> bstate" where
  "match_loop inp maxChainLength dataZero lastBlock nextBlock i st =
     (if i + int BlockEndNoMatch \<le> int (nextBlock - lastBlock) \<and> maxChainLength \<noteq> 0
      then match_loop inp maxChainLength dataZero lastBlock nextBlock (i + 1)
             (match_position inp maxChainLength dataZero lastBlock nextBlock i st)
      else (i, st))"
  by pat_completeness auto
termination
  by (relation "measure (\<lambda>(inp, maxChainLength, dataZero, lastBlock, nextBlock, i, st).
                  nat (int (nextBlock - lastBlock) - i))") auto

declare match_loop.simps [simp del]

text \<open>
  \<open>while (i < n_lengths) { matches.lengths[i] = JustLiteral; ++i; }\<close>. The index is an
  \<open>int64_t\<close>; \<open>std::vector::operator[]\<close> with a negative index writes in front of the
  vector's storage, which is no behaviour of the program: the result is \<open>None\<close>.
\<close>

function fill_literals :: "int \<Rightarrow> nat list \<Rightarrow> nat list option" where
  "fill_literals i ls =
     (if i < int (length ls) then
        (if i < 0 then None else fill_literals (i + 1) (ls[nat i := JustLiteral]))
      else Some ls)"
  by pat_completeness auto
termination
  by (relation "measure (\<lambda>(i, ls). nat (int (length ls) - i))") auto

declare fill_literals.simps [simp del]

text \<open>The number of bytes the loop goes back into the previous block.\<close>

definition lookback_of :: "nat \<Rightarrow> nat \<Rightarrow> int" where
  "lookback_of maxChainLength dataZero =
     (if maxChainLength = 0 then 0
      else - (if int dataZero > int BlockEndNoMatch then int BlockEndNoMatch else int dataZero))"

text \<open>
  The match finder of one block, from \<open>// full match finder\<close> to the call of
  \<open>estimateCosts\<close>: the tables after the block and the block's matches.
\<close>

definition find_matches ::
  "byte list \<Rightarrow> nat \<Rightarrow> nat \<Rightarrow> nat \<Rightarrow> nat \<Rightarrow> bstate \<Rightarrow> bstate option" where
  "find_matches inp maxChainLength dataZero lastBlock nextBlock st =
     (let blockSize = nextBlock - lastBlock;
          n_matches = (if maxChainLength = 0 then 0 else blockSize);
          st0 = st\<lparr>found := \<lparr>lengths = replicate n_matches 0, distances = replicate n_matches 0\<rparr>,
                    skipMatches := 0, lazyEvaluation := False\<rparr>;
          r = match_loop inp maxChainLength dataZero lastBlock nextBlock
                (lookback_of maxChainLength dataZero) st0
      in case fill_literals (fst r) (lengths (found (snd r))) of
           None \<Rightarrow> None
         | Some ls \<Rightarrow>
             (let m = (found (snd r))\<lparr>lengths := ls\<rparr>
              in Some ((snd r)\<lparr>found :=
                   (if n_matches > BlockEndNoMatch \<and> maxChainLength > ShortChainsGreedy
                    then estimateCosts m else m)\<rparr>)))"


subsection \<open>\<open>compress\<close>: the frame\<close>

text \<open>
  The output of one block (\<open>// did compression do harm ?\<close> to the two \<open>dump\<close>s of the
  payload): the four bytes of \<open>numBytesTagged\<close>, then the compressed bytes or the
  block itself. \<open>data\<close> is the list from the block's first byte on.
\<close>

definition write_block :: "nat \<Rightarrow> byte list \<Rightarrow> byte list \<Rightarrow> nat \<Rightarrow> sink \<Rightarrow> sink" where
  "write_block maxChainLength compressed data blockSize out =
     (let useCompression = (length compressed < blockSize \<and> maxChainLength \<noteq> 0);
          numBytes = u32 (if useCompression then length compressed else blockSize);
          numBytesTagged = numBytes OR (if useCompression then 0 else 0x80000000);
          out1 = dump_byte (of_nat (numBytesTagged mod 256)) out;
          out2 = dump_byte (of_nat (numBytesTagged div 256 mod 256)) out1;
          out3 = dump_byte (of_nat (numBytesTagged div 65536 mod 256)) out2;
          out4 = dump_byte (of_nat (numBytesTagged div 16777216 mod 256)) out3
      in if useCompression then dump (take numBytes compressed) out4
         else dump (take numBytes data) out4)"

text \<open>
  The variables of \<open>compress\<close> that live across the block loop. \<open>remaining\<close> is
  \<open>end - it\<close>, \<open>dataSize\<close> is \<open>data.size()\<close>; the tables are carried in a \<open>bstate\<close>.
\<close>

record cstate =
  c_tables :: bstate
  c_dataZero :: nat
  c_dataSize :: nat
  c_numRead :: nat
  c_remaining :: nat
  c_lastBlock :: nat
  c_nextBlock :: nat
  c_parseDictionary :: bool
  c_out :: sink

datatype encode_error = DictionaryUnsupported | OutOfBounds

text \<open>One block after \<open>// determine block borders\<close>: match finder, serializer, output.
  \<open>None\<close> when the match finder wrote in front of \<open>matches.lengths\<close>.\<close>

definition compress_block ::
  "byte list \<Rightarrow> nat \<Rightarrow> nat \<Rightarrow> nat \<Rightarrow> nat \<Rightarrow> bstate \<Rightarrow> sink \<Rightarrow> (bstate \<times> sink) option" where
  "compress_block inp maxChainLength dataZero lastBlock nextBlock st out =
     (case find_matches inp maxChainLength dataZero lastBlock nextBlock st of
        None \<Rightarrow> None
      | Some st' \<Rightarrow>
          Some (st', write_block maxChainLength
                       (selectBestMatches (found st') (drop lastBlock inp))
                       (drop lastBlock inp) (nextBlock - lastBlock) out))"

text \<open>
  The main loop \<open>while (true)\<close>. An exception leaves the function with the sink as it is
  at that moment (\<open>b\<close> and \<open>ix\<close> are references): \<open>Inl\<close> carries the error and that sink.
\<close>

function compress_loop ::
  "byte list \<Rightarrow> nat \<Rightarrow> cstate \<Rightarrow> (encode_error \<times> sink) + sink" where
  "compress_loop inp maxChainLength c =
     (if c_parseDictionary c then Inl (DictionaryUnsupported, c_out c)
      else
        (let c1 = (if c_remaining c \<noteq> 0
                   then c\<lparr>c_dataSize := c_dataSize c + c_remaining c,
                          c_numRead := c_numRead c + c_remaining c, c_remaining := 0\<rparr>
                   else c)
         in if c_nextBlock c1 = c_numRead c1 then Inr (c_out c1)
            else
              (let lastBlock' = c_nextBlock c1;
                   nextBlock' = (if c_nextBlock c1 + MaxBlockSize > c_numRead c1 then c_numRead c1
                                 else c_nextBlock c1 + MaxBlockSize)
               in case compress_block inp maxChainLength (c_dataZero c1) lastBlock' nextBlock'
                         (c_tables c1) (c_out c1) of
                    None \<Rightarrow> Inl (OutOfBounds, c_out c1)
                  | Some (st', out') \<Rightarrow>
                      compress_loop inp maxChainLength
                        (c1\<lparr>c_tables := st', c_lastBlock := lastBlock', c_nextBlock := nextBlock',
                            c_parseDictionary := False, c_out := out',
                            c_dataZero := (if c_dataSize c1 > MaxDistance
                                         then c_dataZero c1 + (c_dataSize c1 - MaxDistance)
                                         else c_dataZero c1),
                            c_dataSize := (if c_dataSize c1 > MaxDistance then MaxDistance
                                         else c_dataSize c1)\<rparr>))))"
  by pat_completeness auto
termination
proof (relation "measure (\<lambda>(inp, maxChainLength, c).
          if c_nextBlock c = c_numRead c + c_remaining c then 0
          else if c_nextBlock c > c_numRead c + c_remaining c then 1
          else c_numRead c + c_remaining c - c_nextBlock c + 1)")
  show "wf (measure (\<lambda>(inp, maxChainLength, c).
          if c_nextBlock c = c_numRead c + c_remaining c then 0
          else if c_nextBlock c > c_numRead c + c_remaining c then 1
          else c_numRead c + c_remaining c - c_nextBlock c + 1))"
    by simp
qed (auto split: if_splits)

declare compress_loop.simps [simp del]

definition header :: "byte list" where
  "header = [0x04, 0x22, 0x4D, 0x18, 0x40, 0x70, 0xDF]"

definition initial_tables :: bstate where
  "initial_tables =
     \<lparr>lastHash = (\<lambda>h. None), previousHash = (\<lambda>k. EndOfChain), previousExact = (\<lambda>k. EndOfChain),
      found = \<lparr>lengths = [], distances = []\<rparr>, skipMatches = 0, lazyEvaluation = False\<rparr>"

text \<open>\<open>compress(it, end, b, ix, dictionary)\<close> of a compressor made with
  \<open>maxChainLength\<close>: header, block loop, the four zero bytes.\<close>

definition compress ::
  "byte list \<Rightarrow> nat \<Rightarrow> byte list \<Rightarrow> sink \<Rightarrow> (encode_error \<times> sink) + sink" where
  "compress inp maxChainLength dictionary b =
     (case compress_loop inp maxChainLength
             \<lparr>c_tables = initial_tables, c_dataZero = 0, c_dataSize = 0, c_numRead = 0,
              c_remaining = length inp, c_lastBlock = 0, c_nextBlock = 0,
              c_parseDictionary = (dictionary \<noteq> []), c_out = dump header b\<rparr> of
        Inl e \<Rightarrow> Inl e
      | Inr out \<Rightarrow> Inr (dump_type 0 out))"



section \<open>Properties of the sink\<close>

text \<open>On a sink whose cursor lies inside the buffer, every \<open>dump\<close> appends to the
  written bytes.\<close>

lemma sink_ok_empty [simp]: "sink_ok empty_sink"
  by (simp add: sink_ok_def empty_sink_def)

lemma written_empty [simp]: "written empty_sink = []"
  by (simp add: written_def empty_sink_def)

lemma dump_ix [simp]: "ix (dump str s) = ix s + length str"
  by (simp add: dump_def Let_def)

lemma dump_ok: "sink_ok (dump str s)"
  by (auto simp: dump_def Let_def sink_ok_def resize_def)

lemma written_dump: "sink_ok s \<Longrightarrow> written (dump str s) = written s @ str"
  by (auto simp: dump_def Let_def sink_ok_def written_def resize_def)

lemma dump_byte_ok: "sink_ok s \<Longrightarrow> sink_ok (dump_byte c s)"
  by (cases "buf s") (auto simp: dump_byte_def Let_def sink_ok_def resize_def)

lemma written_dump_byte: "sink_ok s \<Longrightarrow> written (dump_byte c s) = written s @ [c]"
  by (cases "buf s")
    (auto simp: dump_byte_def Let_def sink_ok_def written_def resize_def
       take_Suc_conv_app_nth nth_append)

lemma dump_bytes_ok: "sink_ok s \<Longrightarrow> sink_ok (dump_bytes bs s)"
  unfolding dump_bytes_def by (induction bs arbitrary: s) (auto simp: dump_byte_ok)

lemma written_dump_bytes: "sink_ok s \<Longrightarrow> written (dump_bytes bs s) = written s @ bs"
  unfolding dump_bytes_def
  by (induction bs arbitrary: s) (auto simp: dump_byte_ok written_dump_byte)

section \<open>Properties of the decompressor\<close>


lemma blocks_header_only:
  "blocks (header @ [0, 0, 0, 0]) False \<lparr>d_it = 7, history = h, pos = 0, d_out = b\<rparr>
     = Returned \<lparr>d_it = 11, history = h, pos = 0, d_out = b\<rparr>"
  by (subst blocks.simps) (simp add: Let_def header_def read32_def)

lemma unlz4_header_only:
  "unlz4 (header @ [0, 0, 0, 0]) 0 e empty_sink None h = Returned (11, empty_sink)"
proof -
  have h: "read32 (header @ [0, 0, 0, 0]) 0 = 0x184D2204"
    by (simp add: read32_def header_def)
  have e: "dump [] empty_sink = empty_sink"
    by (simp add: dump_def empty_sink_def)
  show ?thesis
    using h e blocks_header_only [of h empty_sink]
    by (simp add: unlz4_def load_dictionary_def Let_def header_def finish_def)
qed



subsection \<open>A memory cut short\<close>

text \<open>\<open>take k mem\<close> is the memory cut behind its first \<open>k\<close> bytes. A run of the decoder on
  the cut memory either leaves it (the outcome \<open>Undefined\<close>) or is the run on the whole
  memory.\<close>

lemma read_length_take:
  "read_length (take k mem) it n off = Some r \<Longrightarrow> read_length mem it n off = Some r"
proof -
  have "mem' = take k mem \<Longrightarrow> read_length mem' it n off = Some r
          \<Longrightarrow> read_length mem it n off = Some r" for mem'
  proof (induction mem' it n off rule: read_length.induct)
    case (1 mem' it n blockOffset)
    note eq' = read_length.simps [of mem' it n blockOffset]
    note eq = read_length.simps [of mem it n blockOffset]
    from "1.prems"(2) eq' have lt': "it < length mem'" by (auto split: if_splits)
    with "1.prems"(1) have lt: "it < length mem" and same: "mem' ! it = mem ! it" by simp_all
    show ?case
    proof (cases "unat (mem ! it) = 255")
      case True
      with lt' same "1.prems"(2) eq'
      have "read_length mem' (it + 1) (u32 (n + unat (mem' ! it))) (u32 (blockOffset + 1)) = Some r"
        by (simp add: Let_def)
      from "1.IH" [OF lt' refl refl refl _ "1.prems"(1) this] True same
      have "read_length mem (it + 1) (u32 (n + unat (mem' ! it))) (u32 (blockOffset + 1)) = Some r"
        by simp
      with True lt same eq show ?thesis by (simp add: Let_def)
    next
      case False
      with lt lt' same "1.prems"(2) eq eq' show ?thesis by (simp add: Let_def)
    qed
  qed
  then show "read_length (take k mem) it n off = Some r \<Longrightarrow> read_length mem it n off = Some r"
    by simp
qed

lemma literals_fast_take:
  "literals_fast (take k mem) n st = Some st' \<Longrightarrow> literals_fast mem n st = Some st'"
  by (induction n arbitrary: st) (auto split: if_splits)

lemma literals_slow_take:
  "literals_slow (take k mem) n st = Some st' \<Longrightarrow> literals_slow mem n st = Some st'"
  by (induction n arbitrary: st) (auto split: if_splits)


lemma read_literals_take:
  assumes "read_literals (take k mem) st off = Some r"
  shows "read_literals mem st off = Some r"
proof -
  from assms have lt': "d_it st < length (take k mem)"
    by (auto simp: read_literals_def split: if_splits)
  then have lt: "d_it st < length mem" and same: "take k mem ! d_it st = mem ! d_it st"
    by simp_all
  from lt' lt have c': "(d_it st < length (take k mem)) = True"
    and c: "(d_it st < length mem) = True" by simp_all
  define hd' where "hd' = (if unat (mem ! d_it st) div 16 = 15
      then read_length (take k mem) (d_it st + 1) 15 (u32 (off + 1))
      else Some (d_it st + 1, unat (mem ! d_it st) div 16, u32 (off + 1)))"
  define hd where "hd = (if unat (mem ! d_it st) div 16 = 15
      then read_length mem (d_it st + 1) 15 (u32 (off + 1))
      else Some (d_it st + 1, unat (mem ! d_it st) div 16, u32 (off + 1)))"
  define lit' where "lit' = (\<lambda>numLiterals it2. if u32 (pos st + numLiterals) < HISTORY_SIZE
                       then literals_fast (take k mem) numLiterals (st\<lparr>d_it := it2\<rparr>)
                       else literals_slow (take k mem) numLiterals (st\<lparr>d_it := it2\<rparr>))"
  define lit where "lit = (\<lambda>numLiterals it2. if u32 (pos st + numLiterals) < HISTORY_SIZE
                       then literals_fast mem numLiterals (st\<lparr>d_it := it2\<rparr>)
                       else literals_slow mem numLiterals (st\<lparr>d_it := it2\<rparr>))"
  have e': "read_literals (take k mem) st off
      = (case hd' of None \<Rightarrow> None
         | Some (it2, numLiterals, off2) \<Rightarrow>
             (case lit' numLiterals it2 of None \<Rightarrow> None
              | Some st' \<Rightarrow> Some (unat (mem ! d_it st), st', u32 (off2 + numLiterals))))"
    unfolding read_literals_def Let_def c' if_True same hd'_def lit'_def by (rule refl)
  have e: "read_literals mem st off
      = (case hd of None \<Rightarrow> None
         | Some (it2, numLiterals, off2) \<Rightarrow>
             (case lit numLiterals it2 of None \<Rightarrow> None
              | Some st' \<Rightarrow> Some (unat (mem ! d_it st), st', u32 (off2 + numLiterals))))"
    unfolding read_literals_def Let_def c if_True hd_def lit_def by (rule refl)
  from assms e' obtain it2 numLiterals off2 st' where
    h': "hd' = Some (it2, numLiterals, off2)" and l': "lit' numLiterals it2 = Some st'"
    and r: "r = (unat (mem ! d_it st), st', u32 (off2 + numLiterals))"
    by (auto split: option.splits)
  from h' have h: "hd = Some (it2, numLiterals, off2)"
    by (auto simp: hd_def hd'_def dest: read_length_take split: if_splits)
  from l' have l: "lit numLiterals it2 = Some st'"
    by (auto simp: lit_def lit'_def dest: literals_fast_take literals_slow_take split: if_splits)
  from h l r e show ?thesis by simp
qed

lemma read_match_take:
  assumes "read_match (take k mem) token st off \<noteq> Undefined"
  shows "read_match mem token st off = read_match (take k mem) token st off"
proof -
  from assms have lt': "d_it st + 1 < length (take k mem)"
    by (auto simp: read_match_def split: if_splits)
  then have lt: "d_it st + 1 < length mem"
    and same: "take k mem ! d_it st = mem ! d_it st"
      "take k mem ! (d_it st + 1) = mem ! (d_it st + 1)"
    by simp_all
  from lt' lt have c': "(d_it st + 1 < length (take k mem)) = True"
    and c: "(d_it st + 1 < length mem) = True" by simp_all
  define delta where "delta = unat (mem ! d_it st) + 256 * unat (mem ! (d_it st + 1))"
  define hd' where "hd' = (if token mod 16 = 15
      then read_length (take k mem) (d_it st + 2) 19 (u32 (off + 2))
      else Some (d_it st + 2, 4 + token mod 16, u32 (off + 2)))"
  define hd where "hd = (if token mod 16 = 15
      then read_length mem (d_it st + 2) 19 (u32 (off + 2))
      else Some (d_it st + 2, 4 + token mod 16, u32 (off + 2)))"
  have e': "read_match (take k mem) token st off
      = (if delta = 0 then Fatal InvalidOffset
         else (case hd' of None \<Rightarrow> Undefined
           | Some (it2, matchLength, off2) \<Rightarrow>
               (case copy_match delta matchLength (st\<lparr>d_it := it2\<rparr>) of
                  None \<Rightarrow> Undefined | Some st' \<Rightarrow> Returned (st', off2))))"
    unfolding read_match_def Let_def c' if_True same delta_def hd'_def by (rule refl)
  have e: "read_match mem token st off
      = (if delta = 0 then Fatal InvalidOffset
         else (case hd of None \<Rightarrow> Undefined
           | Some (it2, matchLength, off2) \<Rightarrow>
               (case copy_match delta matchLength (st\<lparr>d_it := it2\<rparr>) of
                  None \<Rightarrow> Undefined | Some st' \<Rightarrow> Returned (st', off2))))"
    unfolding read_match_def Let_def c if_True delta_def hd_def by (rule refl)
  show ?thesis
  proof (cases "delta = 0")
    case True
    with e e' show ?thesis by simp
  next
    case False
    with assms e' obtain x where h': "hd' = Some x" by (cases hd') auto
    then have "hd = Some x"
      by (auto simp: hd_def hd'_def dest: read_length_take split: if_splits)
    with h' e e' show ?thesis by simp
  qed
qed

lemma sequences_take:
  "sequences (take k mem) blockSize st off \<noteq> Undefined \<Longrightarrow>
     sequences mem blockSize st off = sequences (take k mem) blockSize st off"
proof -
  have "mem' = take k mem \<Longrightarrow> sequences mem' blockSize st off \<noteq> Undefined
          \<Longrightarrow> sequences mem blockSize st off = sequences mem' blockSize st off" for mem'
  proof (induction mem' blockSize st off rule: sequences.induct)
    case (1 mem' blockSize st blockOffset)
    note eq' = sequences.simps [of mem' blockSize st blockOffset]
    note eq = sequences.simps [of mem blockSize st blockOffset]
    note tk = "1.prems"(1)
    note nu = "1.prems"(2)
    show ?case
    proof (cases "blockOffset < blockSize")
      case False
      have "sequences mem blockSize st blockOffset = Returned st"
        using False by (subst eq) simp
      moreover have "sequences mem' blockSize st blockOffset = Returned st"
        using False by (subst eq') simp
      ultimately show ?thesis by simp
    next
      case True
      have "read_literals mem' st blockOffset \<noteq> None"
      proof
        assume "read_literals mem' st blockOffset = None"
        with True have "sequences mem' blockSize st blockOffset = Undefined"
          by (subst eq') simp
        with nu show False by simp
      qed
      then obtain token st1 off1 where
        a': "read_literals mem' st blockOffset = Some (token, st1, off1)"
        by (cases "read_literals mem' st blockOffset") auto
      from a' have a: "read_literals mem st blockOffset = Some (token, st1, off1)"
        unfolding tk by (rule read_literals_take)
      show ?thesis
      proof (cases "off1 = blockSize")
        case True
        have "sequences mem blockSize st blockOffset = Returned st1"
          using True \<open>blockOffset < blockSize\<close> a by (subst eq) simp
        moreover have "sequences mem' blockSize st blockOffset = Returned st1"
          using True \<open>blockOffset < blockSize\<close> a' by (subst eq') simp
        ultimately show ?thesis by simp
      next
        case False
        have s': "sequences mem' blockSize st blockOffset
                  = (case read_match mem' token st1 off1 of
                       Returned (st2, off2) \<Rightarrow> sequences mem' blockSize st2 off2
                     | Fatal e \<Rightarrow> Fatal e
                     | Undefined \<Rightarrow> Undefined)"
          using False True a' by (subst eq') simp
        have s: "sequences mem blockSize st blockOffset
                  = (case read_match mem token st1 off1 of
                       Returned (st2, off2) \<Rightarrow> sequences mem blockSize st2 off2
                     | Fatal e \<Rightarrow> Fatal e
                     | Undefined \<Rightarrow> Undefined)"
          using False True a by (subst eq) simp
        from nu s' have rnu: "read_match mem' token st1 off1 \<noteq> Undefined"
          by (auto split: outcome.splits)
        then have m: "read_match mem token st1 off1 = read_match mem' token st1 off1"
          unfolding tk by (rule read_match_take)
        show ?thesis
        proof (cases "read_match mem' token st1 off1")
          case (Returned x)
          obtain st2 off2 where x: "x = (st2, off2)" by (cases x)
          from Returned x have b': "read_match mem' token st1 off1 = Returned (st2, off2)" by simp
          from nu s' b' have "sequences mem' blockSize st2 off2 \<noteq> Undefined" by simp
          from "1.IH" [OF True a' refl refl False b' refl tk this]
          have "sequences mem blockSize st2 off2 = sequences mem' blockSize st2 off2" .
          with s s' m b' show ?thesis by simp
        next
          case (Fatal e)
          with s s' m show ?thesis by simp
        next
          case Undefined
          with rnu show ?thesis by simp
        qed
      qed
    qed
  qed
  from this [OF refl]
  show "sequences (take k mem) blockSize st off \<noteq> Undefined \<Longrightarrow>
     sequences mem blockSize st off = sequences (take k mem) blockSize st off" .
qed

lemma decode_block_take:
  "decode_block (take k mem) c blockSize st \<noteq> Undefined \<Longrightarrow>
     decode_block mem c blockSize st = decode_block (take k mem) c blockSize st"
proof (cases c)
  case True
  assume "decode_block (take k mem) c blockSize st \<noteq> Undefined"
  with True have "sequences (take k mem) blockSize st 0 \<noteq> Undefined"
    by (simp add: decode_block_def)
  from sequences_take [OF this] True
  show "decode_block mem c blockSize st = decode_block (take k mem) c blockSize st"
    by (simp add: decode_block_def)
next
  case False
  assume "decode_block (take k mem) c blockSize st \<noteq> Undefined"
  with False obtain st' where l: "literals_slow (take k mem) blockSize st = Some st'"
    by (cases "literals_slow (take k mem) blockSize st") (auto simp: decode_block_def)
  from literals_slow_take [OF l] l False
  show "decode_block mem c blockSize st = decode_block (take k mem) c blockSize st"
    by (simp add: decode_block_def)
qed

lemma read32_take: "it + 3 < length (take k mem) \<Longrightarrow> read32 (take k mem) it = read32 mem it"
  by (simp add: read32_def)

lemma blocks_take:
  "blocks (take k mem) hbc st \<noteq> Undefined \<Longrightarrow>
     blocks mem hbc st = blocks (take k mem) hbc st"
proof -
  have "mem' = take k mem \<Longrightarrow> blocks mem' hbc st \<noteq> Undefined
          \<Longrightarrow> blocks mem hbc st = blocks mem' hbc st" for mem'
  proof (induction mem' hbc st rule: blocks.induct)
    case (1 mem' hbc st)
    note eq' = blocks.simps [of mem' hbc st]
    note eq = blocks.simps [of mem hbc st]
    note tk = "1.prems"(1)
    note nu = "1.prems"(2)
    have lt': "d_it st + 3 < length mem'"
    proof (rule ccontr)
      assume "\<not> d_it st + 3 < length mem'"
      then have "blocks mem' hbc st = Undefined" by (subst eq') simp
      with nu show False by simp
    qed
    then have lt: "d_it st + 3 < length mem"
      and w: "read32 mem (d_it st) = read32 mem' (d_it st)"
      unfolding tk by (simp_all add: read32_take)
    define word where "word = read32 mem' (d_it st)"
    define st0 where "st0 = st\<lparr>d_it := d_it st + 4\<rparr>"
    show ?case
    proof (cases "word mod 2 ^ 31 = 0")
      case True
      have "blocks mem hbc st = Returned st0"
        using True lt w by (subst eq) (simp add: Let_def word_def st0_def)
      moreover have "blocks mem' hbc st = Returned st0"
        using True lt' by (subst eq') (simp add: Let_def word_def st0_def)
      ultimately show ?thesis by simp
    next
      case False
      have s': "blocks mem' hbc st
          = (case decode_block mem' (word div 2 ^ 31 = 0) (word mod 2 ^ 31) st0 of
               Returned st1 \<Rightarrow>
                 blocks mem' hbc (if hbc then st1\<lparr>d_it := d_it st1 + 4\<rparr> else st1)
             | Fatal e \<Rightarrow> Fatal e
             | Undefined \<Rightarrow> Undefined)"
        using False lt' by (subst eq') (simp add: Let_def word_def st0_def)
      have s: "blocks mem hbc st
          = (case decode_block mem (word div 2 ^ 31 = 0) (word mod 2 ^ 31) st0 of
               Returned st1 \<Rightarrow>
                 blocks mem hbc (if hbc then st1\<lparr>d_it := d_it st1 + 4\<rparr> else st1)
             | Fatal e \<Rightarrow> Fatal e
             | Undefined \<Rightarrow> Undefined)"
        using False lt w by (subst eq) (simp add: Let_def word_def st0_def)
      from nu s'
      have dnu: "decode_block mem' (word div 2 ^ 31 = 0) (word mod 2 ^ 31) st0 \<noteq> Undefined"
        by (auto split: outcome.splits)
      then have d: "decode_block mem (word div 2 ^ 31 = 0) (word mod 2 ^ 31) st0
               = decode_block mem' (word div 2 ^ 31 = 0) (word mod 2 ^ 31) st0"
        unfolding tk by (rule decode_block_take)
      show ?thesis
      proof (cases "decode_block mem' (word div 2 ^ 31 = 0) (word mod 2 ^ 31) st0")
        case (Returned st1)
        from nu s' Returned
        have "blocks mem' hbc (if hbc then st1\<lparr>d_it := d_it st1 + 4\<rparr> else st1) \<noteq> Undefined"
          by simp
        from "1.IH" [OF lt' word_def refl refl st0_def False Returned tk this]
        have "blocks mem hbc (if hbc then st1\<lparr>d_it := d_it st1 + 4\<rparr> else st1)
              = blocks mem' hbc (if hbc then st1\<lparr>d_it := d_it st1 + 4\<rparr> else st1)" .
        with s s' d Returned show ?thesis by simp
      next
        case (Fatal e)
        with s s' d show ?thesis by simp
      next
        case Undefined
        with dnu show ?thesis by simp
      qed
    qed
  qed
  from this [OF refl]
  show "blocks (take k mem) hbc st \<noteq> Undefined \<Longrightarrow>
     blocks mem hbc st = blocks (take k mem) hbc st" .
qed

lemma blocks_end:
  "blocks mem hbc st = Returned st' \<Longrightarrow> d_it st + 4 \<le> d_it st' \<and> d_it st' \<le> length mem"
proof (induction mem hbc st rule: blocks.induct)
  case (1 mem hbc st)
  note eq = blocks.simps [of mem hbc st]
  from "1.prems" eq have lt: "d_it st + 3 < length mem" by (auto split: if_splits)
  define word where "word = read32 mem (d_it st)"
  define st0 where "st0 = st\<lparr>d_it := d_it st + 4\<rparr>"
  show ?case
  proof (cases "word mod 2 ^ 31 = 0")
    case True
    with lt "1.prems" eq show ?thesis by (auto simp: Let_def word_def)
  next
    case False
    from False lt "1.prems" eq obtain st1 where
      d: "decode_block mem (word div 2 ^ 31 = 0) (word mod 2 ^ 31) st0 = Returned st1"
      and r: "blocks mem hbc (if hbc then st1\<lparr>d_it := d_it st1 + 4\<rparr> else st1) = Returned st'"
      by (auto simp: Let_def word_def st0_def split: outcome.splits)
    from "1.IH" [OF lt word_def refl refl st0_def False d r] decode_block_it [OF d]
    show ?thesis by (auto simp: st0_def split: if_splits)
  qed
qed

text \<open>The flag \<open>hasContentChecksum\<close> of the frame at \<open>it\<close>, and the read pointer behind the
  end mark when \<open>unlz4\<close> returns with the pointer \<open>p\<close>: the four bytes of a content
  checksum are stepped over, not read.\<close>

definition content_checksum :: "byte list \<Rightarrow> nat \<Rightarrow> bool" where
  "content_checksum mem it = (unat (mem ! (it + 4)) div 4 mod 2 = 1)"

definition end_of_blocks :: "byte list \<Rightarrow> nat \<Rightarrow> nat \<Rightarrow> nat" where
  "end_of_blocks mem it p = p - (if content_checksum mem it then 4 else 0)"

text \<open>A frame with one raw block that holds the byte \<open>A\<close>.\<close>

definition raw_block_frame :: "byte list" where
  "raw_block_frame = [0x04, 0x22, 0x4D, 0x18, 0x40, 0x70, 0xDF, 1, 0, 0, 0x80, 0x41, 0, 0, 0, 0]"

lemma unlz4_returned:
  assumes "unlz4 mem it e b dictionary h0 = Returned (p, out)"
  shows "it + 4 < length mem \<and> it + 11 \<le> end_of_blocks mem it p
       \<and> end_of_blocks mem it p \<le> length mem"
proof -
  from assms have lt: "it + 4 < length mem"
    by (auto simp: unlz4_def split: if_splits)
  define flags where "flags = unat (mem ! (it + 4))"
  define numIgnore :: nat where "numIgnore = 1 + (if flags div 8 mod 2 = 1 then 8 else 0)
                                    + (if flags mod 2 = 1 then 4 else 0) + 1"
  from assms lt obtain h where
    f: "finish (flags div 4 mod 2 = 1)
          (blocks mem (flags div 16 mod 2 = 1)
             \<lparr>d_it = it + 5 + numIgnore, history = h, pos = 0, d_out = b\<rparr>) = Returned (p, out)"
    by (auto simp: unlz4_def Let_def flags_def numIgnore_def split: if_splits option.splits)
  then obtain st' where
    bl: "blocks mem (flags div 16 mod 2 = 1)
             \<lparr>d_it = it + 5 + numIgnore, history = h, pos = 0, d_out = b\<rparr> = Returned st'"
    and p: "p = d_it st' + (if flags div 4 mod 2 = 1 then 4 else 0)"
    by (auto simp: finish_def split: outcome.splits)
  from p have e: "end_of_blocks mem it p = d_it st'"
    by (simp add: end_of_blocks_def content_checksum_def flags_def)
  from blocks_end [OF bl] have "it + 5 + numIgnore + 4 \<le> d_it st'" "d_it st' \<le> length mem"
    by simp_all
  moreover have "2 \<le> numIgnore" by (simp add: numIgnore_def)
  ultimately show ?thesis using lt e by simp
qed

lemma unlz4_take:
  assumes "unlz4 (take k mem) it e b dictionary h0 \<noteq> Undefined"
  shows "unlz4 mem it e' b dictionary h0 = unlz4 (take k mem) it e b dictionary h0"
proof -
  from assms have lt3': "it + 3 < length (take k mem)"
    by (auto simp: unlz4_def split: if_splits)
  then have lt3: "it + 3 < length mem" and m: "read32 (take k mem) it = read32 mem it"
    by (simp_all add: read32_take)
  show ?thesis
  proof (cases "read32 mem it = 0x184D2204")
    case False
    with lt3 lt3' m show ?thesis by (simp add: unlz4_def)
  next
    case True
    with assms lt3' m have lt4': "it + 4 < length (take k mem)"
      by (auto simp: unlz4_def split: if_splits)
    then have lt4: "it + 4 < length mem" and fl: "take k mem ! (it + 4) = mem ! (it + 4)"
      by simp_all
    define flags where "flags = unat (mem ! (it + 4))"
    define numIgnore :: nat where "numIgnore = 1 + (if flags div 8 mod 2 = 1 then 8 else 0)
                                    + (if flags mod 2 = 1 then 4 else 0) + 1"
    define rest where "rest = (\<lambda>m. case load_dictionary dictionary h0 of
                       None \<Rightarrow> Fatal CannotOpenDictionary
                     | Some h \<Rightarrow>
                         finish (flags div 4 mod 2 = 1)
                           (blocks m (flags div 16 mod 2 = 1)
                              \<lparr>d_it = it + 5 + numIgnore, history = h, pos = 0, d_out = b\<rparr>))"
    have u': "unlz4 (take k mem) it e b dictionary h0
              = (if flags div 64 \<noteq> 1 then Fatal UnsupportedVersion else rest (take k mem))"
      using True lt3' lt4' m
      unfolding unlz4_def Let_def flags_def numIgnore_def rest_def fl by simp
    have u: "unlz4 mem it e' b dictionary h0
              = (if flags div 64 \<noteq> 1 then Fatal UnsupportedVersion else rest mem)"
      using True lt3 lt4
      unfolding unlz4_def Let_def flags_def numIgnore_def rest_def by simp
    show ?thesis
    proof (cases "flags div 64 \<noteq> 1")
      case True
      with u u' show ?thesis by simp
    next
      case False
      show ?thesis
      proof (cases "load_dictionary dictionary h0")
        case None
        with u u' show ?thesis by (simp add: rest_def)
      next
        case (Some h)
        from assms u' False Some
        have "blocks (take k mem) (flags div 16 mod 2 = 1)
                \<lparr>d_it = it + 5 + numIgnore, history = h, pos = 0, d_out = b\<rparr> \<noteq> Undefined"
          by (auto simp: rest_def finish_def)
        from blocks_take [OF this] u u' Some show ?thesis by (simp add: rest_def)
      qed
    qed
  qed
qed

lemma unlz4_raw_block_frame:
  "unlz4 raw_block_frame 0 e empty_sink None h = Returned (16, \<lparr>buf = [0x41], ix = 1\<rparr>)"
  by (simp add: unlz4_def load_dictionary_def Let_def raw_block_frame_def finish_def
      blocks.simps decode_block_def flush_if_full_def HISTORY_SIZE_def read32_def
      dump_def resize_def empty_sink_def)

text \<open>
  Claim C10. The outcome of \<open>unlz4\<close> (the final read pointer and the sink, or the error)
  is the same for any two values of \<open>end\<close>. The decoder reads what the frame asks for:
  when only the first \<open>k\<close> bytes of the memory can be read, the run either is the run on
  the whole memory, error or not, or it reads outside those \<open>k\<close> bytes; it never reports
  an error of its own for the cut. When the run on the whole memory returns, it has read
  the end mark, at least eleven bytes behind \<open>it\<close> and inside the memory, and every cut
  in front of the end of the end mark, so every range \<open>end\<close> shorter than the frame with
  only the range readable, makes the decoder read outside the cut memory.
\<close>

theorem C10_end_is_never_read:
  "unlz4 mem it end1 b dictionary h0 = unlz4 mem it end2 b dictionary h0
   \<and> (unlz4 (take k mem) it k b dictionary h0 \<noteq> Undefined \<longrightarrow>
        unlz4 (take k mem) it k b dictionary h0 = unlz4 mem it end1 b dictionary h0)
   \<and> (unlz4 mem it end1 b dictionary h0 = Returned (p, out) \<longrightarrow>
        it + 11 \<le> end_of_blocks mem it p \<and> end_of_blocks mem it p \<le> length mem
      \<and> (\<forall>j < end_of_blocks mem it p. unlz4 (take j mem) it j b dictionary h0 = Undefined))"
proof (intro conjI impI allI)
  show "unlz4 mem it end1 b dictionary h0 = unlz4 mem it end2 b dictionary h0"
    by (simp add: unlz4_def)
next
  assume "unlz4 (take k mem) it k b dictionary h0 \<noteq> Undefined"
  from unlz4_take [OF this, of end1]
  show "unlz4 (take k mem) it k b dictionary h0 = unlz4 mem it end1 b dictionary h0"
    by simp
next
  assume r: "unlz4 mem it end1 b dictionary h0 = Returned (p, out)"
  from unlz4_returned [OF r]
  show "it + 11 \<le> end_of_blocks mem it p" "end_of_blocks mem it p \<le> length mem"
    by simp_all
  fix j assume j: "j < end_of_blocks mem it p"
  show "unlz4 (take j mem) it j b dictionary h0 = Undefined"
  proof (rule ccontr)
    assume nu: "unlz4 (take j mem) it j b dictionary h0 \<noteq> Undefined"
    from unlz4_take [OF nu, of end1] r
    have r': "unlz4 (take j mem) it j b dictionary h0 = Returned (p, out)" by simp
    from unlz4_returned [OF r']
    have "it + 4 < length (take j mem)" "end_of_blocks (take j mem) it p \<le> length (take j mem)"
      by simp_all
    moreover from this(1) have "end_of_blocks (take j mem) it p = end_of_blocks mem it p"
      by (simp add: end_of_blocks_def content_checksum_def)
    ultimately have "end_of_blocks mem it p \<le> j" by simp
    with j show False by simp
  qed
qed

theorem C10_witness:
  "unlz4 raw_block_frame 0 7 empty_sink None (\<lambda>k. 0) = Returned (16, \<lparr>buf = [0x41], ix = 1\<rparr>)
   \<and> unlz4 raw_block_frame 0 7 empty_sink None (\<lambda>k. 0)
       = unlz4 raw_block_frame 0 16 empty_sink None (\<lambda>k. 0)
   \<and> end_of_blocks raw_block_frame 0 16 = 16 \<and> (7 :: nat) < 16
   \<and> unlz4 (take 7 raw_block_frame) 0 7 empty_sink None (\<lambda>k. 0) = Undefined"
proof -
  have e: "end_of_blocks raw_block_frame 0 16 = 16"
    by (simp add: end_of_blocks_def content_checksum_def raw_block_frame_def)
  note r = unlz4_raw_block_frame [of 7 "\<lambda>k. 0"]
  from C10_end_is_never_read [of raw_block_frame 0 7 empty_sink None "\<lambda>k. 0" 16 7 16
      "\<lparr>buf = [0x41], ix = 1\<rparr>"] r
  have "unlz4 raw_block_frame 0 7 empty_sink None (\<lambda>k. 0)
          = unlz4 raw_block_frame 0 16 empty_sink None (\<lambda>k. 0)"
    and "\<forall>j < end_of_blocks raw_block_frame 0 16.
           unlz4 (take j raw_block_frame) 0 j empty_sink None (\<lambda>k. 0) = Undefined"
    by simp_all
  with r e show ?thesis by simp
qed

section \<open>Properties of the compressor\<close>

lemma compress_loop_dictionary:
  "c_parseDictionary c \<Longrightarrow> compress_loop inp L c = Inl (DictionaryUnsupported, c_out c)"
  by (subst compress_loop.simps) simp

lemma dump_header_empty: "dump header empty_sink = \<lparr>buf = header, ix = 7\<rparr>"
  by (simp add: dump_def empty_sink_def header_def resize_def Let_def)

text \<open>
  Claim C8 (as amended). With a non-empty dictionary \<open>compress\<close> throws, for every input
  and every chain length; the exception is raised in the block loop, after the frame
  header was written: the sink holds the seven header bytes at the cursor and the
  cursor has moved by seven. No block and no end mark is written.
\<close>

theorem C8_dictionary_throws_after_header:
  "dictionary \<noteq> [] \<Longrightarrow>
     compress inp L dictionary b = Inl (DictionaryUnsupported, dump header b)"
  by (simp add: compress_def compress_loop_dictionary)

theorem C8_witness:
  "[0x61 :: byte] \<noteq> []
   \<and> compress [] 9 [0x61] empty_sink = Inl (DictionaryUnsupported, \<lparr>buf = header, ix = 7\<rparr>)"
  using C8_dictionary_throws_after_header [of "[0x61]" "[]" 9 empty_sink]
  by (simp add: dump_header_empty)

text \<open>Claim C8 as stated fails: the sink and the cursor are not left unchanged.\<close>

theorem C8_counterexample:
  "compress [] 9 [0x61] empty_sink = Inl (DictionaryUnsupported, \<lparr>buf = header, ix = 7\<rparr>)
   \<and> \<lparr>buf = header, ix = 7\<rparr> \<noteq> empty_sink
   \<and> written \<lparr>buf = header, ix = 7\<rparr> = [0x04, 0x22, 0x4D, 0x18, 0x40, 0x70, 0xDF]"
proof -
  have "compress [] 9 [0x61] empty_sink = Inl (DictionaryUnsupported, \<lparr>buf = header, ix = 7\<rparr>)"
    by (simp add: compress_def compress_loop_dictionary dump_header_empty)
  moreover have "\<lparr>buf = header, ix = 7\<rparr> \<noteq> empty_sink"
    by (simp add: empty_sink_def)
  moreover have "written \<lparr>buf = header, ix = 7\<rparr> = [0x04, 0x22, 0x4D, 0x18, 0x40, 0x70, 0xDF]"
    by (simp add: written_def header_def)
  ultimately show ?thesis by simp
qed


section \<open>The bytes the serializer appends\<close>

text \<open>
  \<open>selectBestMatches\<close> only appends to its result. \<open>emit_bytes\<close> are the bytes of one
  sequence and \<open>select_bytes\<close> those of the loop from \<open>offset\<close> on; both follow the
  source line by line, with the sink left out.
\<close>

definition emit_bytes :: "byte list \<Rightarrow> nat \<Rightarrow> nat \<Rightarrow> nat \<Rightarrow> nat \<Rightarrow> bool \<Rightarrow> byte list" where
  "emit_bytes data literalsFrom numLiterals len distance lastToken =
     (let matchLength = (if lastToken then 0 else int len - int MinMatch);
          token = (if matchLength < 15 then of_int matchLength else 15 :: byte)
      in (if numLiterals < 15 then [token OR push_bit 4 (of_nat numLiterals)]
          else (token OR 0xF0) # length_code (numLiterals - 15))
         @ (if numLiterals > 0 then take numLiterals (drop literalsFrom data) else [])
         @ (if numLiterals > 0 \<and> lastToken then []
            else [of_nat (distance mod 256), of_nat (distance div 256)]
                 @ (if matchLength \<ge> 15 then length_code (nat (matchLength - 15)) else [])))"

lemma emit_sequence_fst:
  "fst (emit_sequence data lf nl len dist lt out) = (nl > 0 \<and> lt)"
  by (simp add: emit_sequence_def Let_def)

lemma emit_sequence_ok:
  "sink_ok out \<Longrightarrow> sink_ok (snd (emit_sequence data lf nl len dist lt out))"
  by (simp add: emit_sequence_def Let_def dump_ok dump_byte_ok dump_bytes_ok)

lemma emit_sequence_written:
  "sink_ok out \<Longrightarrow>
     written (snd (emit_sequence data lf nl len dist lt out))
       = written out @ emit_bytes data lf nl len dist lt"
  by (simp add: emit_sequence_def emit_bytes_def Let_def dump_ok dump_byte_ok dump_bytes_ok
      written_dump written_dump_byte written_dump_bytes)

function select_bytes :: "matches \<Rightarrow> byte list \<Rightarrow> nat \<Rightarrow> nat \<Rightarrow> nat \<Rightarrow> byte list" where
  "select_bytes m data offset literalsFrom numLiterals =
     (if offset < length (lengths m) then
        (let len = lengths m ! offset;
             distance = distances m ! offset
         in if len \<le> JustLiteral then
              (let literalsFrom' = (if numLiterals = 0 then offset else literalsFrom);
                   numLiterals' = numLiterals + 1
               in if offset + 1 < length (lengths m)
                  then select_bytes m data (offset + 1) literalsFrom' numLiterals'
                  else emit_bytes data literalsFrom' numLiterals' len distance True)
            else emit_bytes data literalsFrom numLiterals len distance False
                 @ select_bytes m data (offset + len) literalsFrom 0)
      else [])"
  by pat_completeness auto
termination
  by (relation "measure (\<lambda>(m, data, offset, rest). length (lengths m) - offset)") auto

declare select_bytes.simps [simp del]

lemma select_loop_written:
  "sink_ok out \<Longrightarrow>
     sink_ok (select_loop m data offset lf nl out)
     \<and> written (select_loop m data offset lf nl out)
         = written out @ select_bytes m data offset lf nl"
proof (induction m data offset lf nl out rule: select_loop.induct)
  case (1 m data offset literalsFrom numLiterals out)
  note ok = "1.prems"
  note l = select_loop.simps [of m data offset literalsFrom numLiterals out]
  note b = select_bytes.simps [of m data offset literalsFrom numLiterals]
  show ?case
  proof (cases "offset < length (lengths m)")
    case False
    with l b show ?thesis using ok by simp
  next
    case inr: True
    show ?thesis
    proof (cases "lengths m ! offset \<le> 1")
      case lit: True
      show ?thesis
      proof (cases "offset + 1 < length (lengths m)")
        case True
        from "1.IH"(1) [OF inr refl refl lit refl refl True ok] inr lit True l b
        show ?thesis by (simp add: Let_def)
      next
        case False
        obtain stop out' where e:
          "emit_sequence data (if numLiterals = 0 then offset else literalsFrom)
             (numLiterals + 1) (lengths m ! offset) (distances m ! offset) True out = (stop, out')"
          by (cases "emit_sequence data (if numLiterals = 0 then offset else literalsFrom)
             (numLiterals + 1) (lengths m ! offset) (distances m ! offset) True out")
        from emit_sequence_fst [of data "if numLiterals = 0 then offset else literalsFrom"
            "numLiterals + 1" "lengths m ! offset" "distances m ! offset" True out] e
        have stop: stop by simp
        from emit_sequence_ok [OF ok, of data "if numLiterals = 0 then offset else literalsFrom"
            "numLiterals + 1" "lengths m ! offset" "distances m ! offset" True]
          emit_sequence_written [OF ok, of data "if numLiterals = 0 then offset else literalsFrom"
            "numLiterals + 1" "lengths m ! offset" "distances m ! offset" True] e
        have "sink_ok out'" and "written out' = written out
            @ emit_bytes data (if numLiterals = 0 then offset else literalsFrom)
                (numLiterals + 1) (lengths m ! offset) (distances m ! offset) True"
          by simp_all
        with inr lit False l b e stop show ?thesis by (simp add: Let_def)
      qed
    next
      case mat: False
      obtain stop out' where e:
        "emit_sequence data literalsFrom numLiterals (lengths m ! offset)
           (distances m ! offset) False out = (stop, out')"
        by (cases "emit_sequence data literalsFrom numLiterals (lengths m ! offset)
           (distances m ! offset) False out")
      from emit_sequence_fst [of data literalsFrom numLiterals "lengths m ! offset"
          "distances m ! offset" False out] e
      have stop: "\<not> stop" by simp
      from emit_sequence_ok [OF ok, of data literalsFrom numLiterals "lengths m ! offset"
          "distances m ! offset" False]
        emit_sequence_written [OF ok, of data literalsFrom numLiterals "lengths m ! offset"
          "distances m ! offset" False] e
      have ok': "sink_ok out'" and w: "written out' = written out
          @ emit_bytes data literalsFrom numLiterals (lengths m ! offset)
              (distances m ! offset) False"
        by simp_all
      from "1.IH"(3) [OF inr refl refl mat e [symmetric] stop ok']
      have "sink_ok (select_loop m data (offset + lengths m ! offset) literalsFrom 0 out')
        \<and> written (select_loop m data (offset + lengths m ! offset) literalsFrom 0 out')
            = written out' @ select_bytes m data (offset + lengths m ! offset) literalsFrom 0" .
      with inr mat l b e stop w show ?thesis by (simp add: Let_def)
    qed
  qed
qed

lemma selectBestMatches_bytes: "selectBestMatches m data = select_bytes m data 0 0 0"
proof -
  have "sink_ok \<lparr>buf = replicate (length (lengths m)) 0, ix = 0\<rparr>"
    by (simp add: sink_ok_def)
  from select_loop_written [OF this, of m data 0 0 0] show ?thesis
    by (simp add: selectBestMatches_def written_def)
qed


section \<open>The bytes the block loop appends\<close>

text \<open>\<open>block_bytes\<close> are the bytes \<open>write_block\<close> appends: the size prefix and the
  payload.\<close>

definition block_bytes :: "nat \<Rightarrow> byte list \<Rightarrow> byte list \<Rightarrow> nat \<Rightarrow> byte list" where
  "block_bytes maxChainLength compressed data blockSize =
     (let useCompression = (length compressed < blockSize \<and> maxChainLength \<noteq> 0);
          numBytes = u32 (if useCompression then length compressed else blockSize);
          numBytesTagged = numBytes OR (if useCompression then 0 else 0x80000000)
      in [of_nat (numBytesTagged mod 256), of_nat (numBytesTagged div 256 mod 256),
          of_nat (numBytesTagged div 65536 mod 256), of_nat (numBytesTagged div 16777216 mod 256)]
         @ take numBytes (if useCompression then compressed else data))"

lemma write_block_ok: "sink_ok out \<Longrightarrow> sink_ok (write_block L compressed data blockSize out)"
  by (simp add: write_block_def Let_def dump_ok)

lemma write_block_written:
  "sink_ok out \<Longrightarrow>
     written (write_block L compressed data blockSize out)
       = written out @ block_bytes L compressed data blockSize"
  by (simp add: write_block_def block_bytes_def Let_def dump_ok dump_byte_ok
      written_dump written_dump_byte)

lemma compress_block_written:
  assumes "compress_block inp L dz lb nb st out = Some (st', out')" and "sink_ok out"
  shows "sink_ok out'
       \<and> find_matches inp L dz lb nb st = Some st'
       \<and> written out' = written out
           @ block_bytes L (selectBestMatches (found st') (drop lb inp)) (drop lb inp) (nb - lb)"
  using assms
  by (auto simp: compress_block_def write_block_ok write_block_written split: option.splits)

lemma compress_loop_appends:
  "compress_loop inp L c = Inr out \<Longrightarrow> sink_ok (c_out c) \<Longrightarrow>
     sink_ok out \<and> (\<exists>body. written out = written (c_out c) @ body)"
proof (induction inp L c rule: compress_loop.induct)
  case (1 inp L c)
  define c1 where "c1 = (if c_remaining c \<noteq> 0
                   then c\<lparr>c_dataSize := c_dataSize c + c_remaining c,
                          c_numRead := c_numRead c + c_remaining c, c_remaining := 0\<rparr>
                   else c)"
  have out1: "c_out c1 = c_out c" by (simp add: c1_def)
  note eq = compress_loop.simps [of inp L c, folded c1_def]
  from "1.prems"(1) eq have nd: "\<not> c_parseDictionary c" by auto
  show ?case
  proof (cases "c_nextBlock c1 = c_numRead c1")
    case True
    with "1.prems" eq nd out1 show ?thesis by (simp add: Let_def)
  next
    case False
    define nb where "nb = (if c_nextBlock c1 + MaxBlockSize > c_numRead c1 then c_numRead c1
                                 else c_nextBlock c1 + MaxBlockSize)"
    from "1.prems"(1) eq nd False obtain st' out' where
      cb: "compress_block inp L (c_dataZero c1) (c_nextBlock c1) nb (c_tables c1) (c_out c1)
             = Some (st', out')"
      by (auto simp: Let_def nb_def split: option.splits)
    define c2 where "c2 = c1\<lparr>c_tables := st', c_lastBlock := c_nextBlock c1, c_nextBlock := nb,
                            c_parseDictionary := False, c_out := out',
                            c_dataZero := (if c_dataSize c1 > MaxDistance
                                         then c_dataZero c1 + (c_dataSize c1 - MaxDistance)
                                         else c_dataZero c1),
                            c_dataSize := (if c_dataSize c1 > MaxDistance then MaxDistance
                                         else c_dataSize c1)\<rparr>"
    from "1.prems"(1) eq nd False cb have rec: "compress_loop inp L c2 = Inr out"
      by (simp add: Let_def nb_def c2_def)
    from compress_block_written [OF cb] "1.prems"(2) out1
    have ok': "sink_ok out'" and w: "\<exists>bs. written out' = written (c_out c) @ bs"
      by auto
    have "sink_ok out \<and> (\<exists>body. written out = written (c_out c2) @ body)"
    proof (rule "1.IH" [OF nd c1_def False refl nb_def cb refl, folded c2_def])
      show "compress_loop inp L c2 = Inr out" by (fact rec)
      show "sink_ok (c_out c2)" using ok' by (simp add: c2_def)
    qed
    with w show ?thesis by (auto simp: c2_def)
  qed
qed

subsection \<open>Where the match finder leaves the vector\<close>

text \<open>
  The loop over the positions ends at \<open>max(lookback, blockSize - 11)\<close>; the fill of the
  last literals starts there. It starts below zero exactly when the loop went back into
  the previous block (\<open>dataZero > 0\<close>) and the block has fewer than eleven bytes.
\<close>

lemma match_loop_fst:
  "fst (match_loop inp L dz lb nb i st) = (if L = 0 then i else max i (int (nb - lb) - 11))"
proof (induction inp L dz lb nb i st rule: match_loop.induct)
  case (1 inp L dz lb nb i st)
  note eq = match_loop.simps [of inp L dz lb nb i st]
  show ?case
  proof (cases "i + int BlockEndNoMatch \<le> int (nb - lb) \<and> L \<noteq> 0")
    case True
    with "1.IH" eq show ?thesis by simp
  next
    case False
    with eq show ?thesis by auto
  qed
qed

lemma fill_literals_negative: "i < 0 \<Longrightarrow> fill_literals i ls = None"
  by (subst fill_literals.simps) simp

lemma fill_literals_Some:
  "0 \<le> i \<Longrightarrow>
     \<exists>ls'. fill_literals i ls = Some ls' \<and> length ls' = length ls
       \<and> (\<forall>j < length ls. ls' ! j = (if i \<le> int j then JustLiteral else ls ! j))"
proof (induction i ls rule: fill_literals.induct)
  case (1 i ls)
  note eq = fill_literals.simps [of i ls]
  show ?case
  proof (cases "i < int (length ls)")
    case False
    with eq show ?thesis by auto
  next
    case True
    with "1.prems" "1.IH" obtain ls' where
      r: "fill_literals (i + 1) (ls[nat i := JustLiteral]) = Some ls'"
      and l: "length ls' = length ls"
      and v: "\<forall>j < length ls. ls' ! j = (if i + 1 \<le> int j then JustLiteral
                                         else ls[nat i := JustLiteral] ! j)"
      by auto
    from True "1.prems" eq r have "fill_literals i ls = Some ls'" by simp
    moreover have "\<forall>j < length ls. ls' ! j = (if i \<le> int j then JustLiteral else ls ! j)"
    proof (intro allI impI)
      fix j assume j: "j < length ls"
      show "ls' ! j = (if i \<le> int j then JustLiteral else ls ! j)"
      proof (cases "int j = i")
        case True
        then have "nat i = j" by auto
        with v j True show ?thesis by auto
      next
        case False
        then have "nat i \<noteq> j" using "1.prems" by auto
        with v j False show ?thesis by auto
      qed
    qed
    ultimately show ?thesis using l by simp
  qed
qed

lemma find_matches_None_iff:
  "find_matches inp L dz lb nb st = None \<longleftrightarrow> L \<noteq> 0 \<and> dz > 0 \<and> nb - lb < 11"
proof -
  define st0 where "st0 = st\<lparr>found := \<lparr>lengths = replicate (if L = 0 then 0 else nb - lb) 0,
      distances = replicate (if L = 0 then 0 else nb - lb) 0\<rparr>,
      skipMatches := 0, lazyEvaluation := False\<rparr>"
  define r where "r = match_loop inp L dz lb nb (lookback_of L dz) st0"
  have f: "fst r = (if L = 0 then lookback_of L dz else max (lookback_of L dz) (int (nb - lb) - 11))"
    unfolding r_def by (rule match_loop_fst)
  have neg: "fst r < 0 \<longleftrightarrow> L \<noteq> 0 \<and> dz > 0 \<and> nb - lb < 11"
    unfolding f by (auto simp: lookback_of_def)
  have "find_matches inp L dz lb nb st = None \<longleftrightarrow> fill_literals (fst r) (lengths (found (snd r))) = None"
    by (simp add: find_matches_def Let_def st0_def r_def split: option.splits)
  also have "\<dots> \<longleftrightarrow> fst r < 0"
  proof (cases "fst r < 0")
    case True
    then show ?thesis by (simp add: fill_literals_negative)
  next
    case False
    then have "0 \<le> fst r" by simp
    from fill_literals_Some [OF this, of "lengths (found (snd r))"] False show ?thesis by auto
  qed
  finally show ?thesis using neg by simp
qed

lemma compress_loop_read:
  assumes "\<not> c_parseDictionary c" and "c_remaining c \<noteq> 0"
  shows "compress_loop inp L c
         = compress_loop inp L (c\<lparr>c_dataSize := c_dataSize c + c_remaining c,
                                   c_numRead := c_numRead c + c_remaining c, c_remaining := 0\<rparr>)"
  using assms
  by (simp add: compress_loop.simps [of inp L c]
      compress_loop.simps [of inp L "c\<lparr>c_dataSize := c_dataSize c + c_remaining c,
                                   c_numRead := c_numRead c + c_remaining c, c_remaining := 0\<rparr>"])

lemma compress_loop_done:
  assumes "\<not> c_parseDictionary c" and "c_remaining c = 0" and "c_nextBlock c = c_numRead c"
  shows "compress_loop inp L c = Inr (c_out c)"
  using assms by (simp add: compress_loop.simps [of inp L c])

lemma compress_loop_step:
  assumes "\<not> c_parseDictionary c" and "c_remaining c = 0" and "c_nextBlock c \<noteq> c_numRead c"
    and "nb = (if c_nextBlock c + MaxBlockSize > c_numRead c then c_numRead c
               else c_nextBlock c + MaxBlockSize)"
    and "compress_block inp L (c_dataZero c) (c_nextBlock c) nb (c_tables c) (c_out c)
           = Some (st', out')"
  shows "compress_loop inp L c
         = compress_loop inp L
             (c\<lparr>c_tables := st', c_lastBlock := c_nextBlock c, c_nextBlock := nb,
                c_parseDictionary := False, c_out := out',
                c_dataZero := (if c_dataSize c > MaxDistance
                               then c_dataZero c + (c_dataSize c - MaxDistance)
                               else c_dataZero c),
                c_dataSize := (if c_dataSize c > MaxDistance then MaxDistance
                               else c_dataSize c)\<rparr>)"
  using assms(1,2,3,5) unfolding assms(4)
  by (subst compress_loop.simps) (simp add: Let_def)

lemma compress_loop_out_of_bounds:
  assumes "\<not> c_parseDictionary c" and "c_remaining c = 0" and "c_nextBlock c \<noteq> c_numRead c"
    and "nb = (if c_nextBlock c + MaxBlockSize > c_numRead c then c_numRead c
               else c_nextBlock c + MaxBlockSize)"
    and "compress_block inp L (c_dataZero c) (c_nextBlock c) nb (c_tables c) (c_out c) = None"
  shows "compress_loop inp L c = Inl (OutOfBounds, c_out c)"
  using assms(1,2,3,5) unfolding assms(4)
  by (subst compress_loop.simps) (simp add: Let_def)

lemma compress_single_block:
  assumes "0 < length inp" and "length inp \<le> MaxBlockSize" and "sink_ok b"
  shows "\<exists>out st'. compress inp L [] b = Inr out
           \<and> find_matches inp L 0 0 (length inp) initial_tables = Some st'
           \<and> written out = written b @ header
               @ block_bytes L (selectBestMatches (found st') inp) inp (length inp)
               @ [0, 0, 0, 0]"
proof -
  define c1 where "c1 = \<lparr>c_tables = initial_tables, c_dataZero = 0, c_dataSize = length inp,
              c_numRead = length inp, c_remaining = 0, c_lastBlock = 0, c_nextBlock = 0,
              c_parseDictionary = False, c_out = dump header b\<rparr>"
  from find_matches_None_iff [of inp L 0 0 "length inp" initial_tables]
  obtain st' where fm: "find_matches inp L 0 0 (length inp) initial_tables = Some st'"
    by auto
  define out1 where "out1 = write_block L (selectBestMatches (found st') inp) inp (length inp)
                              (dump header b)"
  have cb: "compress_block inp L (c_dataZero c1) (c_nextBlock c1) (length inp) (c_tables c1)
              (c_out c1) = Some (st', out1)"
    by (simp add: compress_block_def fm out1_def c1_def)
  have nb: "length inp = (if c_nextBlock c1 + MaxBlockSize > c_numRead c1 then c_numRead c1
               else c_nextBlock c1 + MaxBlockSize)"
    using assms(2) by (simp add: c1_def)
  define c0 where "c0 = \<lparr>c_tables = initial_tables, c_dataZero = 0, c_dataSize = 0,
              c_numRead = 0, c_remaining = length inp, c_lastBlock = 0, c_nextBlock = 0,
              c_parseDictionary = False, c_out = dump header b\<rparr>"
  have "compress_loop inp L c0 = compress_loop inp L c1"
    using assms(1) by (subst compress_loop_read) (simp_all add: c0_def c1_def)
  also have "\<dots> = Inr out1"
    using assms(1)
    by (subst compress_loop_step [OF _ _ _ nb cb])
      (simp_all add: c1_def compress_loop_done)
  finally have c: "compress inp L [] b = Inr (dump_type 0 out1)"
    by (simp add: compress_def c0_def)
  have ok1: "sink_ok out1"
    by (simp add: out1_def write_block_ok dump_ok)
  have "written (dump_type 0 out1) = written b @ header
          @ block_bytes L (selectBestMatches (found st') inp) inp (length inp) @ [0, 0, 0, 0]"
    using assms(3) ok1
    by (simp add: dump_type_def written_dump out1_def write_block_written dump_ok le32_def)
  with c fm show ?thesis by simp
qed

lemma compress_empty: "compress [] L [] b = Inr (dump_type 0 (dump header b))"
  by (simp add: compress_def compress_loop.simps)



section \<open>The frame of a single block\<close>

text \<open>The frame as the caller keeps it: \<open>main\<close> calls \<open>smallz4::lz4\<close> with an empty
  string and \<open>ix = 0\<close>, without a dictionary, and cuts the string at \<open>ix\<close>.\<close>

definition encoded :: "byte list \<Rightarrow> nat \<Rightarrow> byte list option" where
  "encoded inp maxChainLength =
     (case compress inp maxChainLength [] empty_sink of
        Inr out \<Rightarrow> Some (written out)
      | Inl e \<Rightarrow> None)"

text \<open>The 25 bytes \<open>Hello World. Hello World!\<close>, the matches the encoder chooses for
  them and the compressed block it writes.\<close>

definition hello :: "byte list" where
  "hello = [0x48, 0x65, 0x6c, 0x6c, 0x6f, 0x20, 0x57, 0x6f, 0x72, 0x6c, 0x64, 0x2e, 0x20,
            0x48, 0x65, 0x6c, 0x6c, 0x6f, 0x20, 0x57, 0x6f, 0x72, 0x6c, 0x64, 0x21]"

definition hello_table :: matches where
  "hello_table =
     \<lparr>lengths = [1, 1, 1, 1, 1, 1, 1, 1, 1, 1, 1, 1, 1, 7, 1, 1, 1, 1, 1, 1, 1, 1, 1, 1, 1],
      distances = [0, 0, 0, 0, 0, 0, 0, 0, 0, 0, 0, 0, 0, 13, 0, 0, 0, 0, 0, 0, 0, 0, 0, 0, 0]\<rparr>"

definition hello_block :: "byte list" where
  "hello_block = [0xD3, 0x48, 0x65, 0x6c, 0x6c, 0x6f, 0x20, 0x57, 0x6f, 0x72, 0x6c, 0x64, 0x2e,
                  0x20, 0x0D, 0x00, 0x50, 0x6f, 0x72, 0x6c, 0x64, 0x21]"

text \<open>Evaluation of the match finder and of the serializer on a concrete input, by
  rewriting with the defining equations.\<close>

lemma replicate_numeral_Cons: "replicate (numeral k) x = x # replicate (pred_numeral k) x"
  by (simp add: numeral_eq_Suc)

lemma list_update_Cons_numeral: "(x # xs)[numeral k := y] = x # xs[pred_numeral k := y]"
  by (simp add: numeral_eq_Suc)

lemmas finder_eval =
  find_matches_def match_loop.simps match_position_def self_matching_def update_chains_def
  hash_walk.simps find_at_def findLongestMatch_def chain_loop.simps phase1_loop.simps
  phase2_fast.simps phase2_slow.simps fill_literals.simps estimateCosts_def cost_loop.simps
  try_lengths.simps lookback_of_def initial_tables_def read32_def match4_def getHash32_def
  u32_def sub64_def Let_def replicate_numeral_Cons list_update_Cons_numeral

lemmas serializer_eval =
  select_bytes.simps emit_bytes_def length_code.simps block_bytes_def u32_def Let_def

lemma encoded_single_block:
  assumes "0 < length inp" and "length inp \<le> MaxBlockSize"
    and "map_option found (find_matches inp L 0 0 (length inp) initial_tables) = Some m"
    and "select_bytes m inp 0 0 0 = block"
  shows "encoded inp L = Some (header @ block_bytes L block inp (length inp) @ [0, 0, 0, 0])"
proof -
  from compress_single_block [OF assms(1,2) sink_ok_empty, of L] obtain out st' where
    "compress inp L [] empty_sink = Inr out"
    "find_matches inp L 0 0 (length inp) initial_tables = Some st'"
    "written out = written empty_sink @ header
       @ block_bytes L (selectBestMatches (found st') inp) inp (length inp) @ [0, 0, 0, 0]"
    by blast
  with assms(3,4) show ?thesis
    by (simp add: encoded_def selectBestMatches_bytes)
qed

lemma hello_matches:
  "map_option found (find_matches hello 65535 0 0 25 initial_tables) = Some hello_table"
  by (simp add: finder_eval hello_def hello_table_def cong: let_weak_cong prod.case_cong_weak)

lemma hello_select: "select_bytes hello_table hello 0 0 0 = hello_block"
  by (simp add: serializer_eval hello_def hello_table_def hello_block_def
      cong: let_weak_cong prod.case_cong_weak)

lemma hello_block_bytes: "block_bytes 65535 hello_block hello 25 = [22, 0, 0, 0] @ hello_block"
  by (simp add: serializer_eval hello_def hello_block_def)

lemma hello_encoded:
  "encoded hello 65535 = Some (header @ [22, 0, 0, 0] @ hello_block @ [0, 0, 0, 0])"
proof -
  have l: "length hello = 25" by (simp add: hello_def)
  from encoded_single_block [of hello 65535 hello_table hello_block] hello_matches hello_select
    hello_block_bytes l
  show ?thesis by simp
qed

text \<open>
  Claim C4. The empty input gives exactly the eleven bytes
  \<open>04 22 4D 18 40 70 DF 00 00 00 00\<close>, for every chain length. For every input, chain
  length and dictionary, whenever \<open>compress\<close> returns, the bytes it wrote start with the
  seven header bytes and end with \<open>00 00 00 00\<close>.
\<close>

theorem C4_frame_header_and_end_mark:
  "(\<exists>out. compress [] L [] empty_sink = Inr out
        \<and> written out = [0x04, 0x22, 0x4D, 0x18, 0x40, 0x70, 0xDF, 0, 0, 0, 0])
   \<and> (sink_ok b \<longrightarrow> compress inp L dictionary b = Inr out \<longrightarrow>
        (\<exists>body. written out
           = written b @ [0x04, 0x22, 0x4D, 0x18, 0x40, 0x70, 0xDF] @ body @ [0, 0, 0, 0]))"
proof (intro conjI impI)
  show "\<exists>out. compress [] L [] empty_sink = Inr out
        \<and> written out = [0x04, 0x22, 0x4D, 0x18, 0x40, 0x70, 0xDF, 0, 0, 0, 0]"
    by (simp add: compress_empty dump_type_def written_dump dump_ok le32_def header_def)
next
  assume ok: "sink_ok b" and c: "compress inp L dictionary b = Inr out"
  define c0 where "c0 = \<lparr>c_tables = initial_tables, c_dataZero = 0, c_dataSize = 0, c_numRead = 0,
              c_remaining = length inp, c_lastBlock = 0, c_nextBlock = 0,
              c_parseDictionary = (dictionary \<noteq> []), c_out = dump header b\<rparr>"
  from c obtain out1 where l: "compress_loop inp L c0 = Inr out1" and o: "out = dump_type 0 out1"
    by (auto simp: compress_def c0_def split: sum.splits)
  from compress_loop_appends [OF l] obtain body where
    ok1: "sink_ok out1" and w: "written out1 = written (dump header b) @ body"
    by (auto simp: c0_def dump_ok)
  from ok1 w ok o have "written out = written b @ header @ body @ [0, 0, 0, 0]"
    by (simp add: dump_type_def written_dump le32_def)
  then show "\<exists>body. written out
           = written b @ [0x04, 0x22, 0x4D, 0x18, 0x40, 0x70, 0xDF] @ body @ [0, 0, 0, 0]"
    by (auto simp: header_def)
qed

theorem C4_witness:
  "sink_ok empty_sink
   \<and> (\<exists>out. compress hello 65535 [] empty_sink = Inr out
        \<and> (\<exists>body. written out = [0x04, 0x22, 0x4D, 0x18, 0x40, 0x70, 0xDF] @ body @ [0, 0, 0, 0]))"
proof -
  from hello_encoded obtain out where c: "compress hello 65535 [] empty_sink = Inr out"
    by (auto simp: encoded_def split: sum.splits)
  from C4_frame_header_and_end_mark [of 65535 empty_sink hello "[]" out] c
  show ?thesis by simp
qed

text \<open>
  Claim C6 (as amended). For \<open>Hello World. Hello World!\<close> and the default chain length
  65535 the frame is the header, one compressed block of 22 bytes and the end mark. The
  block is one sequence with the 13 literals \<open>Hello World. \<close> and a match of length 7 at
  offset 13 (token \<open>D3\<close>, offset \<open>0D 00\<close>), then the last sequence with the five literals
  \<open>orld!\<close> (token \<open>50\<close>): a match may not reach into the last five bytes of the block.
\<close>

theorem C6_hello_world_frame:
  "encoded hello 65535
     = Some (header @ [22, 0, 0, 0]
             @ [0xD3] @ take 13 hello @ [13, 0]
             @ [0x50] @ drop 20 hello
             @ [0, 0, 0, 0])
   \<and> map_option found (find_matches hello 65535 0 0 25 initial_tables) = Some hello_table
   \<and> lengths hello_table ! 13 = 7 \<and> distances hello_table ! 13 = 13"
proof -
  have "hello_block = [0xD3] @ take 13 hello @ [13, 0] @ [0x50] @ drop 20 hello"
    by (simp add: hello_block_def hello_def)
  with hello_encoded hello_matches show ?thesis
    by (simp add: hello_table_def)
qed

theorem C6_witness: "encoded hello 65535 \<noteq> None"
  using C6_hello_world_frame by simp

text \<open>
  Claim C6 as stated fails: the match chosen at position 13 has length 7, not 12, and
  the frame is not the one with a 12-byte match (token \<open>D8\<close>) and the literal tail \<open>!\<close>.
\<close>

theorem C6_counterexample:
  "map_option (\<lambda>st. lengths (found st) ! 13) (find_matches hello 65535 0 0 25 initial_tables)
     = Some 7
   \<and> (7 :: nat) \<noteq> 12
   \<and> encoded hello 65535
       \<noteq> Some (header @ [18, 0, 0, 0]
               @ [0xD8] @ take 13 hello @ [13, 0]
               @ [0x10] @ drop 24 hello
               @ [0, 0, 0, 0])"
proof -
  from hello_matches have
    "map_option (\<lambda>st. lengths (found st) ! 13) (find_matches hello 65535 0 0 25 initial_tables)
       = Some (lengths hello_table ! 13)"
    by (auto simp: map_option_case split: option.splits)
  then show ?thesis
    using hello_encoded by (simp add: hello_table_def header_def hello_block_def)
qed


section \<open>The size prefix of a block\<close>

lemma unat_byte_of_nat: "unat (of_nat (v mod 256) :: byte) = v mod 256"
  by (simp add: unat_of_nat)

lemma le32_sum:
  "(v::nat) mod 256 + 256 * (v div 256 mod 256) + 65536 * (v div 65536 mod 256)
     + 16777216 * (v div 16777216) = v"
proof -
  define a where "a = v div 256"
  define b where "b = a div 256"
  define c where "c = b div 256"
  have 1: "v = v mod 256 + 256 * a" by (simp add: a_def)
  have 2: "a = a mod 256 + 256 * b" by (simp add: b_def)
  have 3: "b = b mod 256 + 256 * c" by (simp add: c_def)
  have 4: "v div 65536 = b" by (simp add: a_def b_def div_mult2_eq)
  have 5: "v div 16777216 = c" by (simp add: a_def b_def c_def div_mult2_eq)
  show ?thesis unfolding 4 5 a_def [symmetric] using 1 2 3 by linarith
qed

lemma read32_bytes:
  assumes "v < 2 ^ 32"
  shows "read32 ([of_nat (v mod 256), of_nat (v div 256 mod 256),
                 of_nat (v div 65536 mod 256), of_nat (v div 16777216 mod 256)] @ rest) 0 = v"
proof -
  have "read32 ([of_nat (v mod 256), of_nat (v div 256 mod 256),
                 of_nat (v div 65536 mod 256), of_nat (v div 16777216 mod 256)] @ rest) 0
        = v mod 256 + 256 * (v div 256 mod 256) + 65536 * (v div 65536 mod 256)
          + 16777216 * (v div 16777216 mod 256)"
    by (simp add: read32_def unat_byte_of_nat)
  moreover from assms have "v div 16777216 < 256" by simp
  then have "v div 16777216 mod 256 = v div 16777216" by simp
  ultimately show ?thesis using le32_sum [of v] by simp
qed

lemma or_power:
  assumes "(n::nat) < 2 ^ m"
  shows "n OR 2 ^ m = n + 2 ^ m"
proof -
  from assms have "\<not> bit n m" by (simp add: bit_iff_odd)
  then have "\<And>k. \<not> bit n k \<or> \<not> bit (2 ^ m :: nat) k"
    by (auto simp: bit_exp_iff)
  from disjunctive_add [OF this] show ?thesis by simp
qed

lemma or_flag: "(n::nat) < 2147483648 \<Longrightarrow> n OR 2147483648 = n + 2147483648"
  using or_power [of n 31] by simp

text \<open>
  What \<open>write_block\<close> appends for a block of at most \<open>MaxBlockSize\<close> bytes: a four-byte
  little-endian prefix and a payload, the tag in bit 31 of the prefix.
\<close>

lemma write_block_prefix:
  assumes "sink_ok out" and "blockSize \<le> MaxBlockSize"
  shows "\<exists>prefix payload.
           written (write_block L compressed data blockSize out) = written out @ prefix @ payload
         \<and> length prefix = 4
         \<and> (if length compressed \<ge> blockSize \<or> L = 0
            then bit (read32 prefix 0) 31 \<and> read32 prefix 0 mod 2 ^ 31 = blockSize
                 \<and> payload = take blockSize data
            else \<not> bit (read32 prefix 0) 31 \<and> read32 prefix 0 = length compressed
                 \<and> payload = compressed)"
proof (cases "length compressed \<ge> blockSize \<or> L = 0")
  case True
  define t where "t = blockSize + 2147483648"
  define prefix :: "byte list" where
    "prefix = [of_nat (t mod 256), of_nat (t div 256 mod 256),
               of_nat (t div 65536 mod 256), of_nat (t div 16777216 mod 256)]"
  from assms(2) have small: "blockSize < 2147483648" by simp
  then have t32: "t < 2 ^ 32" by (simp add: t_def)
  from small have u: "u32 blockSize = blockSize" by (simp add: u32_def)
  from True have nuse: "(length compressed < blockSize \<and> L \<noteq> 0) = False" by auto
  have b: "block_bytes L compressed data blockSize = prefix @ take blockSize data"
    unfolding block_bytes_def Let_def nuse if_False u or_flag [OF small] prefix_def t_def
    by (rule refl)
  from read32_bytes [OF t32, of "[]"] have r: "read32 prefix 0 = t"
    by (simp add: prefix_def)
  have len: "length prefix = 4" by (simp add: prefix_def)
  have "t div 2147483648 = blockSize div 2147483648 + 1"
    unfolding t_def by (rule div_add_self2) simp
  with small have bit: "bit t 31" by (simp add: bit_iff_odd)
  have low: "t mod 2 ^ 31 = blockSize" using small by (simp add: t_def)
  have w: "written (write_block L compressed data blockSize out)
             = written out @ prefix @ take blockSize data"
    using write_block_written [OF assms(1), of L compressed data blockSize] b by simp
  show ?thesis
    apply (rule exI [of _ prefix])
    apply (rule exI [of _ "take blockSize data"])
    using True w len bit low unfolding r by simp
next
  case False
  define t where "t = length compressed"
  define prefix :: "byte list" where
    "prefix = [of_nat (t mod 256), of_nat (t div 256 mod 256),
               of_nat (t div 65536 mod 256), of_nat (t div 16777216 mod 256)]"
  from False assms(2) have small: "t < 2147483648" by (simp add: t_def)
  then have t32: "t < 2 ^ 32" by simp
  from small have u: "u32 (length compressed) = t" by (simp add: u32_def t_def)
  from False have use: "(length compressed < blockSize \<and> L \<noteq> 0) = True" by auto
  have z: "t OR 0 = t" by simp
  have b: "block_bytes L compressed data blockSize = prefix @ compressed"
    unfolding block_bytes_def Let_def use if_True u z prefix_def
    by (simp add: t_def)
  from read32_bytes [OF t32, of "[]"] have r: "read32 prefix 0 = t"
    by (simp add: prefix_def)
  have len: "length prefix = 4" by (simp add: prefix_def)
  have bit: "\<not> bit t 31" using small by (simp add: bit_iff_odd)
  have w: "written (write_block L compressed data blockSize out)
             = written out @ prefix @ compressed"
    using write_block_written [OF assms(1), of L compressed data blockSize] b by simp
  show ?thesis
    apply (rule exI [of _ prefix])
    apply (rule exI [of _ compressed])
    using False w len bit unfolding r by (simp add: t_def)
qed

text \<open>
  Claim C3. For every block \<open>[lastBlock, nextBlock)\<close> of at most \<open>MaxBlockSize\<close> bytes of
  the input, in every state of the tables and of the sink (a block of fewer than eleven
  bytes behind a moved window start apart, where the match finder leaves its vector),
  the encoder's step for the block returns and appends a four-byte little-endian prefix
  and a payload. When the serialized matches of the block are not shorter than the
  block, or \<open>maxChainLength = 0\<close>, bit 31 of the prefix is set, its low 31 bits are the
  block size and the payload is the input block itself; otherwise bit 31 is clear, the
  prefix is the size of the serialized matches and the payload is the serialized matches.
\<close>

theorem C3_raw_fallback:
  assumes "sink_ok out" and "nb - lb \<le> MaxBlockSize"
    and "L = 0 \<or> dz = 0 \<or> 11 \<le> nb - lb"
  shows "\<exists>st' out' prefix payload.
           compress_block inp L dz lb nb st out = Some (st', out')
         \<and> find_matches inp L dz lb nb st = Some st'
         \<and> written out' = written out @ prefix @ payload
         \<and> length prefix = 4
         \<and> (if length (selectBestMatches (found st') (drop lb inp)) \<ge> nb - lb \<or> L = 0
            then bit (read32 prefix 0) 31 \<and> read32 prefix 0 mod 2 ^ 31 = nb - lb
                 \<and> payload = take (nb - lb) (drop lb inp)
            else \<not> bit (read32 prefix 0) 31
                 \<and> read32 prefix 0 = length (selectBestMatches (found st') (drop lb inp))
                 \<and> payload = selectBestMatches (found st') (drop lb inp))"
proof -
  from assms(3) find_matches_None_iff [of inp L dz lb nb st]
  obtain st' where fm: "find_matches inp L dz lb nb st = Some st'"
    by (cases "find_matches inp L dz lb nb st") auto
  define compressed where "compressed = selectBestMatches (found st') (drop lb inp)"
  define out' where "out' = write_block L compressed (drop lb inp) (nb - lb) out"
  have cb: "compress_block inp L dz lb nb st out = Some (st', out')"
    by (simp add: compress_block_def fm out'_def compressed_def)
  from write_block_prefix [OF assms(1,2), of L compressed "drop lb inp"]
  obtain prefix payload where
    w: "written out' = written out @ prefix @ payload" and l: "length prefix = 4"
    and c: "if length compressed \<ge> nb - lb \<or> L = 0
            then bit (read32 prefix 0) 31 \<and> read32 prefix 0 mod 2 ^ 31 = nb - lb
                 \<and> payload = take (nb - lb) (drop lb inp)
            else \<not> bit (read32 prefix 0) 31 \<and> read32 prefix 0 = length compressed
                 \<and> payload = compressed"
    unfolding out'_def by blast
  from cb fm w l c show ?thesis
    unfolding compressed_def by blast
qed

theorem C3_witness:
  "sink_ok empty_sink \<and> (25 :: nat) - 0 \<le> MaxBlockSize
   \<and> (\<exists>st' out' prefix.
         compress_block hello 65535 0 0 25 initial_tables empty_sink = Some (st', out')
       \<and> written out' = prefix @ hello_block
       \<and> length prefix = 4 \<and> \<not> bit (read32 prefix 0) 31 \<and> read32 prefix 0 = 22)
   \<and> (\<exists>st' out' prefix.
         compress_block hello 0 0 0 25 initial_tables empty_sink = Some (st', out')
       \<and> written out' = prefix @ hello
       \<and> length prefix = 4 \<and> bit (read32 prefix 0) 31 \<and> read32 prefix 0 mod 2 ^ 31 = 25)"
proof -
  have l: "length hello_block = 22" "length hello = 25"
    by (simp_all add: hello_block_def hello_def)
  have a: "(25 :: nat) - 0 \<le> MaxBlockSize" by simp
  from C3_raw_fallback [OF sink_ok_empty a, of 65535 0 hello initial_tables]
  obtain st' out' prefix payload where
    1: "compress_block hello 65535 0 0 25 initial_tables empty_sink = Some (st', out')"
    and 2: "find_matches hello 65535 0 0 25 initial_tables = Some st'"
    and 3: "written out' = written empty_sink @ prefix @ payload" "length prefix = 4"
    and 4: "if length (selectBestMatches (found st') (drop 0 hello)) \<ge> 25 - 0 \<or> (65535::nat) = 0
            then bit (read32 prefix 0) 31 \<and> read32 prefix 0 mod 2 ^ 31 = 25 - 0
                 \<and> payload = take (25 - 0) (drop 0 hello)
            else \<not> bit (read32 prefix 0) 31
                 \<and> read32 prefix 0 = length (selectBestMatches (found st') (drop 0 hello))
                 \<and> payload = selectBestMatches (found st') (drop 0 hello)"
    by auto
  from 2 hello_matches have "found st' = hello_table" by simp
  then have s: "selectBestMatches (found st') (drop 0 hello) = hello_block"
    by (simp add: selectBestMatches_bytes hello_select)
  from 4 have "\<not> bit (read32 prefix 0) 31 \<and> read32 prefix 0 = 22 \<and> payload = hello_block"
    unfolding s using l by simp
  with 1 3 have A: "\<exists>st' out' prefix.
         compress_block hello 65535 0 0 25 initial_tables empty_sink = Some (st', out')
       \<and> written out' = prefix @ hello_block
       \<and> length prefix = 4 \<and> \<not> bit (read32 prefix 0) 31 \<and> read32 prefix 0 = 22"
    by auto
  from C3_raw_fallback [OF sink_ok_empty a, of 0 0 hello initial_tables] l
  have B: "\<exists>st' out' prefix.
         compress_block hello 0 0 0 25 initial_tables empty_sink = Some (st', out')
       \<and> written out' = prefix @ hello
       \<and> length prefix = 4 \<and> bit (read32 prefix 0) 31 \<and> read32 prefix 0 mod 2 ^ 31 = 25"
    by auto
  from A B show ?thesis by simp
qed


section \<open>A short last block\<close>

text \<open>
  An input of 4 MiB and one to ten bytes more has a second block of fewer than eleven
  bytes. After the first block \<open>dataZero\<close> is positive, so the loop over the positions of
  the second block starts at \<open>-12\<close> and ends at \<open>blockSize - 11 < 0\<close>, and the fill of the
  last literals writes \<open>matches.lengths[i]\<close> with a negative \<open>i\<close>.
\<close>

lemma compress_short_tail:
  assumes len: "length inp = MaxBlockSize + r" and r: "1 \<le> r" "r \<le> 10" and L: "L \<noteq> 0"
  shows "\<exists>s. compress inp L [] b = Inl (OutOfBounds, s)"
proof -
  define c0 where "c0 = \<lparr>c_tables = initial_tables, c_dataZero = 0, c_dataSize = 0,
              c_numRead = 0, c_remaining = length inp, c_lastBlock = 0, c_nextBlock = 0,
              c_parseDictionary = False, c_out = dump header b\<rparr>"
  define c1 where "c1 = \<lparr>c_tables = initial_tables, c_dataZero = 0, c_dataSize = length inp,
              c_numRead = length inp, c_remaining = 0, c_lastBlock = 0, c_nextBlock = 0,
              c_parseDictionary = False, c_out = dump header b\<rparr>"
  have read: "compress_loop inp L c0 = compress_loop inp L c1"
    using len r by (subst compress_loop_read) (simp_all add: c0_def c1_def)
  from find_matches_None_iff [of inp L 0 0 MaxBlockSize initial_tables]
  obtain st' where fm: "find_matches inp L 0 0 MaxBlockSize initial_tables = Some st'"
    by auto
  define out1 where "out1 = write_block L (selectBestMatches (found st') (drop 0 inp))
                              (drop 0 inp) (MaxBlockSize - 0) (dump header b)"
  have cb1: "compress_block inp L (c_dataZero c1) (c_nextBlock c1) MaxBlockSize (c_tables c1)
               (c_out c1) = Some (st', out1)"
    by (simp add: compress_block_def fm out1_def c1_def)
  have nb1: "MaxBlockSize = (if c_nextBlock c1 + MaxBlockSize > c_numRead c1 then c_numRead c1
               else c_nextBlock c1 + MaxBlockSize)"
    using len r by (simp add: c1_def)
  define c2 where "c2 = c1\<lparr>c_tables := st', c_lastBlock := c_nextBlock c1,
                c_nextBlock := MaxBlockSize, c_parseDictionary := False, c_out := out1,
                c_dataZero := (if c_dataSize c1 > MaxDistance
                               then c_dataZero c1 + (c_dataSize c1 - MaxDistance)
                               else c_dataZero c1),
                c_dataSize := (if c_dataSize c1 > MaxDistance then MaxDistance
                               else c_dataSize c1)\<rparr>"
  have step1: "compress_loop inp L c1 = compress_loop inp L c2"
    unfolding c2_def using len r
    by (intro compress_loop_step [OF _ _ _ nb1 cb1]) (simp_all add: c1_def)
  have dz: "c_dataZero c2 = length inp - MaxDistance" "c_nextBlock c2 = MaxBlockSize"
    "c_numRead c2 = length inp" "c_remaining c2 = 0" "\<not> c_parseDictionary c2"
    using len by (simp_all add: c2_def c1_def)
  have nb2: "length inp = (if c_nextBlock c2 + MaxBlockSize > c_numRead c2 then c_numRead c2
               else c_nextBlock c2 + MaxBlockSize)"
    using len r dz by simp
  have "find_matches inp L (c_dataZero c2) (c_nextBlock c2) (length inp) (c_tables c2) = None"
    unfolding find_matches_None_iff using len r L dz by simp
  then have cb2: "compress_block inp L (c_dataZero c2) (c_nextBlock c2) (length inp)
                    (c_tables c2) (c_out c2) = None"
    by (simp add: compress_block_def)
  have "compress_loop inp L c2 = Inl (OutOfBounds, c_out c2)"
    using len r dz by (intro compress_loop_out_of_bounds [OF _ _ _ nb2 cb2]) simp_all
  with read step1 show ?thesis
    by (simp add: compress_def c0_def)
qed

text \<open>
  Claim C1 fails on the code. For every input of \<open>MaxBlockSize + r\<close> bytes with
  \<open>1 \<le> r \<le> 10\<close> and every chain length but 0, the call leaves the defined behaviour
  of the program in the second block: no frame is returned that could be decoded to
  the input.
\<close>

theorem C1_short_last_block_writes_out_of_bounds:
  assumes "length inp = MaxBlockSize + r" and "1 \<le> r" and "r \<le> 10" and "L \<noteq> 0"
  shows "encoded inp L = None
       \<and> (\<exists>s. compress inp L [] empty_sink = Inl (OutOfBounds, s))"
  using compress_short_tail [OF assms, of empty_sink]
  by (auto simp: encoded_def)

theorem C1_witness:
  "length (replicate 4194309 (0 :: byte)) = MaxBlockSize + 5 \<and> (1 :: nat) \<le> 5 \<and> (5 :: nat) \<le> 10
   \<and> (9 :: nat) \<noteq> 0 \<and> encoded (replicate 4194309 0) 9 = None"
proof -
  have "length (replicate 4194309 (0 :: byte)) = MaxBlockSize + 5" by simp
  from C1_short_last_block_writes_out_of_bounds [OF this, of 9] show ?thesis by simp
qed

section \<open>The greedy mode\<close>

text \<open>The text \<open>abcd\<close> seven times, compressed with \<open>maxChainLength = 3\<close>; the table
  the match loop leaves for it; and the state of the loop in front of position \<open>k\<close>.\<close>

definition abcd7 :: "byte list" where
  "abcd7 = [0x61, 0x62, 0x63, 0x64, 0x61, 0x62, 0x63, 0x64, 0x61, 0x62, 0x63, 0x64, 0x61, 0x62,
            0x63, 0x64, 0x61, 0x62, 0x63, 0x64, 0x61, 0x62, 0x63, 0x64, 0x61, 0x62, 0x63, 0x64]"

definition greedy_table :: matches where
  "greedy_table =
     \<lparr>lengths = [0, 0, 0, 0, 19, 18, 0, 0, 0, 0, 0, 0, 0, 0, 0, 0, 0,
                 1, 1, 1, 1, 1, 1, 1, 1, 1, 1, 1],
      distances = [0, 0, 0, 0, 4, 4, 0, 0, 0, 0, 0, 0, 0, 0, 0, 0, 0,
                   0, 0, 0, 0, 0, 0, 0, 0, 0, 0, 0]\<rparr>"

definition greedy_state :: "nat \<Rightarrow> bstate" where
  "greedy_state k =
     fold (\<lambda>i. match_position abcd7 3 0 0 28 (int i)) (take k [0, 1, 2, 3, 4, 5, 6, 7])
       (initial_tables\<lparr>found := \<lparr>lengths = replicate 28 0, distances = replicate 28 0\<rparr>\<rparr>)"

text \<open>What \<open>findLongestMatch\<close> returns for position \<open>i\<close> of the block once the chains hold
  that position.\<close>

definition longest_at :: "byte list \<Rightarrow> nat \<Rightarrow> nat \<Rightarrow> nat \<Rightarrow> nat \<Rightarrow> nat \<Rightarrow> bstate \<Rightarrow> nat \<times> nat" where
  "longest_at inp L dz lb nb i st =
     findLongestMatch inp L (i + lb) dz (nb - BlockEndLiterals)
       (previousExact (snd (update_chains inp dz lb (int i) st))) (distances (found st) ! i)"

text \<open>The value the loop body stores in \<open>previousHash\<close> for position \<open>i\<close> of the block: the
  distance to the last position with the same hash, \<open>EndOfChain\<close> when there is none or
  it is more than \<open>MaxDistance\<close> away.\<close>

definition hash_distance :: "byte list \<Rightarrow> nat \<Rightarrow> nat \<Rightarrow> bstate \<Rightarrow> nat" where
  "hash_distance inp lb i st =
     (case lastHash st (getHash32 (read32 inp (lb + i))) of
        None \<Rightarrow> EndOfChain
      | Some lhm \<Rightarrow> if sub64 (lb + i) lhm > MaxDistance then EndOfChain
                    else sub64 (lb + i) lhm)"

lemma update_chains_frame:
  "found (snd (update_chains inp dz lb i st)) = found st
   \<and> skipMatches (snd (update_chains inp dz lb i st)) = skipMatches st
   \<and> lazyEvaluation (snd (update_chains inp dz lb i st)) = lazyEvaluation st"
  by (simp add: update_chains_def Let_def split: option.splits)

lemma prev_index: "nat ((int i + int MaxDistance + 1) mod 65536) = i mod 65536"
  by (simp add: nat_mod_distrib flip: of_nat_add of_nat_mod)

lemma update_chains_lastHash:
  "lastHash (snd (update_chains inp dz lb (int i) st))
     = (lastHash st)(getHash32 (read32 inp (lb + i)) := Some (lb + i))"
  by (simp add: update_chains_def Let_def flip: of_nat_add split: option.splits)

lemma update_chains_previousHash:
  "previousHash (snd (update_chains inp dz lb (int i) st))
     = (previousHash st)(i mod 65536 := hash_distance inp lb i st)"
  using prev_index [of i]
  by (simp add: update_chains_def hash_distance_def Let_def flip: of_nat_add
      split: option.splits)

lemma update_chains_previousExact:
  "previousExact (snd (update_chains inp dz lb (int i) st))
     = (previousExact st)(i mod 65536 :=
          previousExact (snd (update_chains inp dz lb (int i) st)) (i mod 65536))
   \<and> (\<not> fst (update_chains inp dz lb (int i) st) \<longrightarrow>
        previousExact (snd (update_chains inp dz lb (int i) st)) (i mod 65536) = EndOfChain)"
  using prev_index [of i]
  by (auto simp: update_chains_def Let_def split: option.splits)

lemma match_position_tables:
  assumes "\<not> self_matching inp lb i st"
  shows "lastHash (match_position inp L dz lb nb i st) = lastHash (snd (update_chains inp dz lb i st))
       \<and> previousHash (match_position inp L dz lb nb i st)
           = previousHash (snd (update_chains inp dz lb i st))
       \<and> previousExact (match_position inp L dz lb nb i st)
           = previousExact (snd (update_chains inp dz lb i st))"
  using assms
  by (cases "update_chains inp dz lb i st")
    (auto simp: match_position_def find_at_def Let_def split: bool.splits)

lemma match_position_skip:
  assumes "\<not> self_matching inp lb (int i) st" and "fst (update_chains inp dz lb (int i) st)"
    and "skipMatches st > 0" and "\<not> lazyEvaluation st"
  shows "match_position inp L dz lb nb (int i) st
         = (snd (update_chains inp dz lb (int i) st))\<lparr>skipMatches := skipMatches st - 1\<rparr>"
  using assms update_chains_frame [of inp dz lb "int i" st]
  by (cases "update_chains inp dz lb (int i) st")
    (auto simp: match_position_def find_at_def split: bool.splits)

lemma match_position_find:
  assumes "\<not> self_matching inp lb (int i) st" and "fst (update_chains inp dz lb (int i) st)"
    and "skipMatches st = 0 \<or> lazyEvaluation st"
  shows "lengths (found (match_position inp L dz lb nb (int i) st))
           = (lengths (found st))[i := fst (longest_at inp L dz lb nb i st)]
       \<and> distances (found (match_position inp L dz lb nb (int i) st))
           = (distances (found st))[i := snd (longest_at inp L dz lb nb i st)]
       \<and> (L \<le> ShortChainsGreedy \<and> fst (longest_at inp L dz lb nb i st) \<noteq> JustLiteral \<longrightarrow>
            skipMatches (match_position inp L dz lb nb (int i) st)
              = fst (longest_at inp L dz lb nb i st)
          \<and> lazyEvaluation (match_position inp L dz lb nb (int i) st) = (skipMatches st \<le> 1))"
  using assms update_chains_frame [of inp dz lb "int i" st]
  by (cases "update_chains inp dz lb (int i) st")
    (auto simp: match_position_def find_at_def longest_at_def Let_def split: bool.splits)

lemma abcd7_matches:
  "map_option found (find_matches abcd7 3 0 0 28 initial_tables) = Some greedy_table"
  by (simp add: finder_eval abcd7_def greedy_table_def cong: let_weak_cong prod.case_cong_weak)

lemma greedy_state_5:
  "skipMatches (greedy_state 5) = 19 \<and> lazyEvaluation (greedy_state 5)
   \<and> \<not> self_matching abcd7 0 5 (greedy_state 5)
   \<and> fst (update_chains abcd7 0 0 5 (greedy_state 5))
   \<and> lengths (found (greedy_state 5)) ! 4 = 19
   \<and> longest_at abcd7 3 0 0 28 5 (greedy_state 5) = (18, 4)"
  by (simp add: greedy_state_def longest_at_def finder_eval abcd7_def
      cong: let_weak_cong prod.case_cong_weak)

lemma greedy_state_6:
  "skipMatches (greedy_state 6) = 18 \<and> \<not> lazyEvaluation (greedy_state 6)
   \<and> \<not> self_matching abcd7 0 6 (greedy_state 6)
   \<and> fst (update_chains abcd7 0 0 6 (greedy_state 6))
   \<and> lengths (found (greedy_state 6)) ! 6 = 0
   \<and> hash_distance abcd7 0 6 (greedy_state 6) = 4
   \<and> previousHash (greedy_state 6) 6 = 0
   \<and> previousExact (greedy_state 6) 6 = 0
   \<and> previousExact (snd (update_chains abcd7 0 0 6 (greedy_state 6))) 6 = 4"
  by (simp add: greedy_state_def hash_distance_def finder_eval abcd7_def
      cong: let_weak_cong prod.case_cong_weak)

text \<open>
  Claim C7 fails on the code: in greedy mode, too, the position behind a match found with
  the skip counter at zero is searched again, because \<open>lazyEvaluation = (skipMatches == 0)\<close>
  is set in both modes. What the loop body does at a position \<open>i\<close> that is not the copy of
  a long run of one letter: it stores the position under its hash in \<open>lastHash\<close>, the
  distance to the last position of that hash in slot \<open>i mod 65536\<close> of \<open>previousHash\<close>,
  and in slot \<open>i mod 65536\<close> of \<open>previousExact\<close> what the chain update computes, whatever
  the skip counter says. Without an exact predecessor in reach that slot of
  \<open>previousExact\<close> is \<open>EndOfChain\<close> and nothing else changes: the counter is not
  decremented. With one, and with a positive counter and \<open>lazyEvaluation\<close> false, the
  position is skipped: the tables of lengths and distances stay as they are and the
  counter goes down by one. With one, and with the counter at zero or \<open>lazyEvaluation\<close>
  set, the finder runs at \<open>i\<close> and its result is stored at \<open>i\<close>; in greedy mode a result
  other than a literal sets the counter to the length found, and sets \<open>lazyEvaluation\<close>
  exactly if the counter was at most one before.
\<close>

theorem C7_greedy_skip:
  assumes "\<not> self_matching inp lb (int i) st"
  shows "lastHash (match_position inp L dz lb nb (int i) st)
           = (lastHash st)(getHash32 (read32 inp (lb + i)) := Some (lb + i))
       \<and> previousHash (match_position inp L dz lb nb (int i) st)
           = (previousHash st)(i mod 65536 := hash_distance inp lb i st)
       \<and> previousExact (match_position inp L dz lb nb (int i) st)
           = (previousExact st)(i mod 65536 :=
                previousExact (snd (update_chains inp dz lb (int i) st)) (i mod 65536))
       \<and> (\<not> fst (update_chains inp dz lb (int i) st) \<longrightarrow>
            previousExact (match_position inp L dz lb nb (int i) st) (i mod 65536) = EndOfChain
          \<and> found (match_position inp L dz lb nb (int i) st) = found st
          \<and> skipMatches (match_position inp L dz lb nb (int i) st) = skipMatches st
          \<and> lazyEvaluation (match_position inp L dz lb nb (int i) st) = lazyEvaluation st)
       \<and> (fst (update_chains inp dz lb (int i) st) \<and> skipMatches st > 0
            \<and> \<not> lazyEvaluation st \<longrightarrow>
            found (match_position inp L dz lb nb (int i) st) = found st
          \<and> skipMatches (match_position inp L dz lb nb (int i) st) = skipMatches st - 1
          \<and> \<not> lazyEvaluation (match_position inp L dz lb nb (int i) st))
       \<and> (fst (update_chains inp dz lb (int i) st)
            \<and> (skipMatches st = 0 \<or> lazyEvaluation st) \<longrightarrow>
            lengths (found (match_position inp L dz lb nb (int i) st))
              = (lengths (found st))[i := fst (longest_at inp L dz lb nb i st)]
          \<and> distances (found (match_position inp L dz lb nb (int i) st))
              = (distances (found st))[i := snd (longest_at inp L dz lb nb i st)]
          \<and> (L \<le> ShortChainsGreedy \<and> fst (longest_at inp L dz lb nb i st) \<noteq> JustLiteral \<longrightarrow>
               skipMatches (match_position inp L dz lb nb (int i) st)
                 = fst (longest_at inp L dz lb nb i st)
             \<and> lazyEvaluation (match_position inp L dz lb nb (int i) st)
                 = (skipMatches st \<le> 1)))"
proof (intro conjI impI)
  note t = match_position_tables [OF assms, of L dz nb]
  from t update_chains_lastHash [of inp dz lb i st]
  show "lastHash (match_position inp L dz lb nb (int i) st)
           = (lastHash st)(getHash32 (read32 inp (lb + i)) := Some (lb + i))"
    by simp
  from t update_chains_previousHash [of inp dz lb i st]
  show "previousHash (match_position inp L dz lb nb (int i) st)
           = (previousHash st)(i mod 65536 := hash_distance inp lb i st)"
    by simp
  from t update_chains_previousExact [of inp dz lb i st]
  show "previousExact (match_position inp L dz lb nb (int i) st)
           = (previousExact st)(i mod 65536 :=
                previousExact (snd (update_chains inp dz lb (int i) st)) (i mod 65536))"
    by simp
next
  assume n: "\<not> fst (update_chains inp dz lb (int i) st)"
  with match_position_tables [OF assms, of L dz nb] update_chains_previousExact [of inp dz lb i st]
  show "previousExact (match_position inp L dz lb nb (int i) st) (i mod 65536) = EndOfChain"
    by simp
  from n assms
  have "match_position inp L dz lb nb (int i) st = snd (update_chains inp dz lb (int i) st)"
    by (cases "update_chains inp dz lb (int i) st")
      (auto simp: match_position_def split: bool.splits)
  with update_chains_frame [of inp dz lb "int i" st]
  show "found (match_position inp L dz lb nb (int i) st) = found st"
    "skipMatches (match_position inp L dz lb nb (int i) st) = skipMatches st"
    "lazyEvaluation (match_position inp L dz lb nb (int i) st) = lazyEvaluation st"
    by simp_all
next
  assume a: "fst (update_chains inp dz lb (int i) st) \<and> skipMatches st > 0
            \<and> \<not> lazyEvaluation st"
  with match_position_skip [OF assms, of dz L nb] update_chains_frame [of inp dz lb "int i" st]
  show "found (match_position inp L dz lb nb (int i) st) = found st"
    "skipMatches (match_position inp L dz lb nb (int i) st) = skipMatches st - 1"
    "\<not> lazyEvaluation (match_position inp L dz lb nb (int i) st)"
    by simp_all
next
  assume a: "fst (update_chains inp dz lb (int i) st)
            \<and> (skipMatches st = 0 \<or> lazyEvaluation st)"
  then have u: "fst (update_chains inp dz lb (int i) st)"
    and s: "skipMatches st = 0 \<or> lazyEvaluation st" by simp_all
  note f = match_position_find [OF assms u s, of L nb]
  from f show "lengths (found (match_position inp L dz lb nb (int i) st))
              = (lengths (found st))[i := fst (longest_at inp L dz lb nb i st)]" by simp
  from f show "distances (found (match_position inp L dz lb nb (int i) st))
              = (distances (found st))[i := snd (longest_at inp L dz lb nb i st)]" by simp
  assume g: "L \<le> ShortChainsGreedy \<and> fst (longest_at inp L dz lb nb i st) \<noteq> JustLiteral"
  with f show "skipMatches (match_position inp L dz lb nb (int i) st)
                 = fst (longest_at inp L dz lb nb i st)"
    "lazyEvaluation (match_position inp L dz lb nb (int i) st) = (skipMatches st \<le> 1)"
    by simp_all
qed

theorem C7_witness:
  "\<not> self_matching abcd7 0 (int 5) (greedy_state 5)
   \<and> fst (update_chains abcd7 0 0 (int 5) (greedy_state 5))
   \<and> lazyEvaluation (greedy_state 5) \<and> skipMatches (greedy_state 5) = 19
   \<and> (3 :: nat) \<le> ShortChainsGreedy
   \<and> fst (longest_at abcd7 3 0 0 28 5 (greedy_state 5)) = 18
   \<and> lengths (found (match_position abcd7 3 0 0 28 (int 5) (greedy_state 5)))
       = (lengths (found (greedy_state 5)))[5 := 18]
   \<and> skipMatches (match_position abcd7 3 0 0 28 (int 5) (greedy_state 5)) = 18
   \<and> \<not> lazyEvaluation (match_position abcd7 3 0 0 28 (int 5) (greedy_state 5))
   \<and> \<not> self_matching abcd7 0 (int 6) (greedy_state 6)
   \<and> fst (update_chains abcd7 0 0 (int 6) (greedy_state 6))
   \<and> \<not> lazyEvaluation (greedy_state 6) \<and> skipMatches (greedy_state 6) = 18
   \<and> found (match_position abcd7 3 0 0 28 (int 6) (greedy_state 6)) = found (greedy_state 6)
   \<and> skipMatches (match_position abcd7 3 0 0 28 (int 6) (greedy_state 6)) = 17
   \<and> previousHash (greedy_state 6) 6 = 0
   \<and> previousHash (match_position abcd7 3 0 0 28 (int 6) (greedy_state 6)) 6 = 4
   \<and> previousExact (greedy_state 6) 6 = 0
   \<and> previousExact (match_position abcd7 3 0 0 28 (int 6) (greedy_state 6)) 6 = 4"
proof -
  have s5: "\<not> self_matching abcd7 0 (int 5) (greedy_state 5)"
    and s6: "\<not> self_matching abcd7 0 (int 6) (greedy_state 6)"
    using greedy_state_5 greedy_state_6 by simp_all
  from C7_greedy_skip [OF s5, of 3 0 28] C7_greedy_skip [OF s6, of 3 0 28]
    greedy_state_5 greedy_state_6
  show ?thesis by simp
qed

text \<open>
  The run of claim C7's counterexample, \<open>abcd\<close> seven times with \<open>maxChainLength = 3\<close>: a
  match of length 19 is found at position 4, the finder runs again at position 5 and
  stores a match of length 18 there, and the positions skipped afterwards hold the
  length 0, not 1.
\<close>

theorem C7_counterexample:
  "map_option found (find_matches abcd7 3 0 0 28 initial_tables) = Some greedy_table
   \<and> (3 :: nat) \<le> ShortChainsGreedy
   \<and> lengths greedy_table ! 4 = 19 \<and> lengths greedy_table ! 5 = 18
   \<and> lengths greedy_table ! 6 = 0 \<and> lengths greedy_table ! 6 \<noteq> 1
   \<and> lengths (found (greedy_state 5)) ! 4 = 19
   \<and> lengths (found (match_position abcd7 3 0 0 28 5 (greedy_state 5))) ! 5 = 18"
proof -
  have "lengths (found (match_position abcd7 3 0 0 28 5 (greedy_state 5))) ! 5 = 18"
    by (simp add: greedy_state_def finder_eval abcd7_def
        cong: let_weak_cong prod.case_cong_weak)
  with abcd7_matches greedy_state_5 show ?thesis
    by (simp add: greedy_table_def)
qed

section \<open>The fatal errors of the decompressor\<close>

text \<open>
  Where the decoder reads a match offset. \<open>seq_reads mem blockSize st blockOffset q\<close>: the
  sequence loop of a compressed block, entered in state \<open>st\<close> at \<open>blockOffset\<close>, comes to
  read the two bytes of a match offset at address \<open>q\<close> (after the literals of a sequence
  that is not the block's last, the sequences before it decoded). \<open>reads_offset\<close>: the
  block loop, entered in state \<open>st\<close> in front of a size prefix, comes to read a match
  offset at \<open>q\<close> in this block, if it is compressed, or in a later one.
\<close>

inductive seq_reads :: "byte list \<Rightarrow> nat \<Rightarrow> dstate \<Rightarrow> nat \<Rightarrow> nat \<Rightarrow> bool"
  for mem :: "byte list" and blockSize :: nat where
  first: "\<lbrakk>blockOffset < blockSize; read_literals mem st blockOffset = Some (token, st1, off1);
           off1 \<noteq> blockSize; d_it st1 + 1 < length mem\<rbrakk>
          \<Longrightarrow> seq_reads mem blockSize st blockOffset (d_it st1)"
| later: "\<lbrakk>blockOffset < blockSize; read_literals mem st blockOffset = Some (token, st1, off1);
           off1 \<noteq> blockSize; read_match mem token st1 off1 = Returned (st2, off2);
           seq_reads mem blockSize st2 off2 q\<rbrakk>
          \<Longrightarrow> seq_reads mem blockSize st blockOffset q"

inductive reads_offset :: "byte list \<Rightarrow> bool \<Rightarrow> dstate \<Rightarrow> nat \<Rightarrow> bool"
  for mem :: "byte list" and hasBlockChecksum :: bool where
  this_block: "\<lbrakk>d_it st + 3 < length mem; read32 mem (d_it st) mod 2 ^ 31 \<noteq> 0;
          read32 mem (d_it st) div 2 ^ 31 = 0;
          seq_reads mem (read32 mem (d_it st) mod 2 ^ 31) (st\<lparr>d_it := d_it st + 4\<rparr>) 0 q\<rbrakk>
         \<Longrightarrow> reads_offset mem hasBlockChecksum st q"
| later_block: "\<lbrakk>d_it st + 3 < length mem; read32 mem (d_it st) mod 2 ^ 31 \<noteq> 0;
          decode_block mem (read32 mem (d_it st) div 2 ^ 31 = 0) (read32 mem (d_it st) mod 2 ^ 31)
            (st\<lparr>d_it := d_it st + 4\<rparr>) = Returned st1;
          reads_offset mem hasBlockChecksum
            (if hasBlockChecksum then st1\<lparr>d_it := d_it st1 + 4\<rparr> else st1) q\<rbrakk>
         \<Longrightarrow> reads_offset mem hasBlockChecksum st q"




















end
